theory Spec2Isabelle
  imports Complex_Main
begin

section \<open>JavaScript strings\<close>

text \<open>
  A JavaScript string is modelled as a HOL \<open>string\<close>: the list of its code units, for
  code units in the range U+0000..U+00FF. A byte buffer (\<open>Uint8Array\<close>) and a binary
  string (the argument of \<open>btoa\<close>, the result of \<open>atob\<close>) are lists of such units too.
  An exception is the message of the thrown \<open>Error\<close>.
\<close>

type_synonym exn = string

abbreviation CR :: char where "CR \<equiv> CHR 0x0D"
abbreviation LF :: char where "LF \<equiv> CHR 0x0A"
abbreviation CRLF :: string where "CRLF \<equiv> [CR, LF]"
abbreviation DQ :: char where "DQ \<equiv> CHR 0x22"
abbreviation BSL :: char where "BSL \<equiv> CHR 0x5C"

text \<open>
  \<open>String.prototype.trim\<close> removes WhiteSpace and LineTerminator code units from both
  ends; below U+0100 these are TAB, LF, VT, FF, CR, SPACE and NBSP.
\<close>

definition isWhiteSpace :: "char \<Rightarrow> bool" where
  "isWhiteSpace c =
     (c = CHR 0x09 \<or> c = LF \<or> c = CHR 0x0B \<or> c = CHR 0x0C \<or> c = CR \<or> c = CHR 0x20 \<or> c = CHR 0xA0)"

definition trim :: "string \<Rightarrow> string" where
  "trim s = rev (dropWhile isWhiteSpace (rev (dropWhile isWhiteSpace s)))"

definition startsWith :: "string \<Rightarrow> string \<Rightarrow> bool" where
  "startsWith s p = (take (length p) s = p)"

definition endsWith :: "string \<Rightarrow> string \<Rightarrow> bool" where
  "endsWith s p = (length p \<le> length s \<and> drop (length s - length p) s = p)"

fun str_includes :: "string \<Rightarrow> string \<Rightarrow> bool" where
  "str_includes [] p = (p = [])"
| "str_includes (c # cs) p = (startsWith (c # cs) p \<or> str_includes cs p)"

fun join :: "string \<Rightarrow> string list \<Rightarrow> string" where
  "join sep [] = []"
| "join sep [x] = x"
| "join sep (x # y # r) = x @ sep @ join sep (y # r)"

text \<open>\<open>s.split(/\r?\n/)\<close>: every LF ends a piece, and takes a CR right before it along.\<close>

fun split_newlines :: "string \<Rightarrow> string list" where
  "split_newlines [] = [[]]"
| "split_newlines [c] = (if c = LF then [[], []] else [[c]])"
| "split_newlines (a # b # cs) =
     (if a = LF then [] # split_newlines (b # cs)
      else if a = CR \<and> b = LF then [] # split_newlines cs
      else (case split_newlines (b # cs) of
              [] \<Rightarrow> [[a]]
            | l # ls \<Rightarrow> (a # l) # ls))"

text \<open>\<open>s.replace(/\r?\n/g, '\r\n')\<close>.\<close>

fun replace_newlines :: "string \<Rightarrow> string" where
  "replace_newlines [] = []"
| "replace_newlines [c] = (if c = LF then CRLF else [c])"
| "replace_newlines (a # b # cs) =
     (if a = LF then CRLF @ replace_newlines (b # cs)
      else if a = CR \<and> b = LF then CRLF @ replace_newlines cs
      else a # replace_newlines (b # cs))"


section \<open>The signal codec (src/lib/utils.ts)\<close>

subsection \<open>SDP minification\<close>

definition isMediaJunk :: "string \<Rightarrow> bool" where
  "isMediaJunk line =
     (startsWith line ''a=rtpmap'' \<or> startsWith line ''a=fmtp'' \<or> startsWith line ''a=rtcp-fb'' \<or>
      startsWith line ''a=ssrc'' \<or> startsWith line ''a=extmap'' \<or> startsWith line ''a=msid:'')"

text \<open>The callback of \<open>filter\<close> in \<open>minifySDP\<close>, with its three returns in order.\<close>

definition keepLine :: "string \<Rightarrow> bool" where
  "keepLine line =
     (if line = [] then False
      else if startsWith line ''a=mid:'' \<or> startsWith line ''a=msid-semantic:'' then True
      else \<not> isMediaJunk line)"

definition minifySDP :: "string \<Rightarrow> string" where
  "minifySDP sdp = join CRLF (filter keepLine (map trim (split_newlines sdp))) @ CRLF"

definition restoreSDP :: "string \<Rightarrow> string" where
  "restoreSDP minified =
     (if minified = [] then []
      else (let s = replace_newlines minified
            in if \<not> endsWith s CRLF then s @ CRLF else s))"

subsection \<open>JSON values and objects\<close>

text \<open>
  An object is the list of its own enumerable properties in insertion order, which is
  the order of \<open>Object.entries\<close> for the property names used here (names that are not
  array indices). \<open>obj_get\<close> is a property read (\<open>None\<close> for \<open>undefined\<close>), \<open>obj_put\<close> an
  assignment \<open>o[k] = v\<close>.
\<close>

datatype json =
    JNull
  | JBool bool
  | JNum int
  | JStr string
  | JArr "json list"
  | JObj "(string \<times> json) list"

type_synonym obj = "(string \<times> json) list"

definition obj_get :: "obj \<Rightarrow> string \<Rightarrow> json option" where
  "obj_get ob k = map_of ob k"

fun obj_put :: "obj \<Rightarrow> string \<Rightarrow> json \<Rightarrow> obj" where
  "obj_put [] k v = [(k, v)]"
| "obj_put ((k', v') # r) k v = (if k' = k then (k, v) # r else (k', v') # obj_put r k v)"

text \<open>\<open>KEY_MAP\<close> and \<open>REV_KEY_MAP\<close>, read at an own property name.\<close>

definition KEY_MAP :: "string \<Rightarrow> string option" where
  "KEY_MAP k = (if k = ''type'' then Some ''t'' else if k = ''sdp'' then Some ''s'' else None)"

definition REV_KEY_MAP :: "string \<Rightarrow> string option" where
  "REV_KEY_MAP k = (if k = ''t'' then Some ''type'' else if k = ''s'' then Some ''sdp'' else None)"

text \<open>The loop \<open>for (const [k, v] of Object.entries(o)) out[MAP[k] || k] = v\<close>.\<close>

fun map_keys :: "(string \<Rightarrow> string option) \<Rightarrow> obj \<Rightarrow> obj \<Rightarrow> obj" where
  "map_keys m [] out = out"
| "map_keys m ((k, v) # r) out =
     map_keys m r (obj_put out (case m k of Some k' \<Rightarrow> (if k' = [] then k else k') | None \<Rightarrow> k) v)"

subsection \<open>The platform and library functions\<close>

text \<open>
  \<open>JSON.stringify\<close>, \<open>JSON.parse\<close>, \<open>pako.deflate\<close>, \<open>pako.inflate\<close>, \<open>btoa\<close> and \<open>atob\<close>
  are not code of the repository: the codec takes them as a parameter. A function that
  can throw returns \<open>Inl\<close> of the message.
\<close>

record codec_lib =
  json_stringify :: "json \<Rightarrow> exn + string"
  json_parse :: "string \<Rightarrow> exn + json"
  deflate :: "string \<Rightarrow> exn + string"
  inflate :: "string \<Rightarrow> exn + string"
  btoa :: "string \<Rightarrow> exn + string"
  atob :: "string \<Rightarrow> exn + string"

subsection \<open>encodeSignal and decodeSignal\<close>

text \<open>\<open>if (payload.sdp && typeof payload.sdp === 'string') payload.sdp = minifySDP(payload.sdp)\<close>\<close>

definition minify_payload :: "obj \<Rightarrow> obj" where
  "minify_payload payload =
     (case obj_get payload ''sdp'' of
        Some (JStr s) \<Rightarrow> (if s \<noteq> [] then obj_put payload ''sdp'' (JStr (minifySDP s)) else payload)
      | _ \<Rightarrow> payload)"

definition encode_try :: "codec_lib \<Rightarrow> obj \<Rightarrow> exn + string" where
  "encode_try lib data =
     (let mapped = map_keys KEY_MAP (minify_payload data) []
      in case json_stringify lib (JObj mapped) of
           Inl e \<Rightarrow> Inl e
         | Inr js \<Rightarrow> (case deflate lib js of
                        Inl e \<Rightarrow> Inl e
                      | Inr compressed \<Rightarrow> btoa lib compressed))"

definition encodeSignal :: "codec_lib \<Rightarrow> obj \<Rightarrow> exn + string" where
  "encodeSignal lib data =
     (case encode_try lib data of
        Inr r \<Rightarrow> Inr r
      | Inl err \<Rightarrow> (case json_stringify lib (JObj data) of
                      Inl e \<Rightarrow> Inl e
                    | Inr js \<Rightarrow> btoa lib js))"

text \<open>
  \<open>Object.entries\<close> of a parsed JSON value: it throws on \<open>null\<close>, has no entry for a
  number or a boolean, and the indexed entries for an array or a string.
\<close>

fun digits :: "nat \<Rightarrow> nat \<Rightarrow> string" where
  "digits 0 n = []"
| "digits (Suc fuel) n =
     (if n < 10 then [char_of (48 + n)] else digits fuel (n div 10) @ [char_of (48 + n mod 10)])"

definition show_nat :: "nat \<Rightarrow> string" where
  "show_nat n = digits (Suc n) n"

definition entries :: "json \<Rightarrow> exn + obj" where
  "entries v =
     (case v of
        JNull \<Rightarrow> Inl ''Cannot convert undefined or null to object''
      | JBool b \<Rightarrow> Inr []
      | JNum n \<Rightarrow> Inr []
      | JStr s \<Rightarrow> Inr (map (\<lambda>i. (show_nat i, JStr [s ! i])) [0..<length s])
      | JArr xs \<Rightarrow> Inr (map (\<lambda>i. (show_nat i, xs ! i)) [0..<length xs])
      | JObj ob \<Rightarrow> Inr ob)"

text \<open>\<open>if (data.sdp && typeof data.sdp === 'string') data.sdp = restoreSDP(data.sdp)\<close>\<close>

definition restore_data :: "obj \<Rightarrow> obj" where
  "restore_data data =
     (case obj_get data ''sdp'' of
        Some (JStr s) \<Rightarrow> (if s \<noteq> [] then obj_put data ''sdp'' (JStr (restoreSDP s)) else data)
      | _ \<Rightarrow> data)"

definition decode_try :: "codec_lib \<Rightarrow> string \<Rightarrow> exn + json" where
  "decode_try lib input =
     (case atob lib input of
        Inl e \<Rightarrow> Inl e
      | Inr bytes \<Rightarrow> (case inflate lib bytes of
          Inl e \<Rightarrow> Inl e
        | Inr decompressed \<Rightarrow> (case json_parse lib decompressed of
            Inl e \<Rightarrow> Inl e
          | Inr mapped \<Rightarrow> (case entries mapped of
              Inl e \<Rightarrow> Inl e
            | Inr es \<Rightarrow> Inr (JObj (restore_data (map_keys REV_KEY_MAP es [])))))))"

definition decodeSignal :: "codec_lib \<Rightarrow> string \<Rightarrow> exn + json" where
  "decodeSignal lib encoded =
     (let input = trim encoded
      in case decode_try lib input of
           Inr data \<Rightarrow> Inr data
         | Inl err \<Rightarrow> (case atob lib input of
                         Inl e2 \<Rightarrow> Inl ''Failed to decode signaling data''
                       | Inr text \<Rightarrow> (case json_parse lib text of
                                       Inl e2 \<Rightarrow> Inl ''Failed to decode signaling data''
                                     | Inr v \<Rightarrow> Inr v)))"

subsection \<open>A reference instance of the library functions\<close>

text \<open>
  Concrete inputs are evaluated with standard base64 (\<open>btoa\<close>, and \<open>atob\<close> as the
  forgiving-base64 decoder of the platform), a JSON printer and parser for objects of
  strings, and stored (uncompressed) data in place of DEFLATE.
\<close>

definition b64_alphabet :: string where
  "b64_alphabet = ''ABCDEFGHIJKLMNOPQRSTUVWXYZabcdefghijklmnopqrstuvwxyz0123456789+/''"

definition b64_char :: "nat \<Rightarrow> char" where
  "b64_char n = b64_alphabet ! (n mod 64)"

fun b64_index_in :: "string \<Rightarrow> char \<Rightarrow> nat option" where
  "b64_index_in [] c = None"
| "b64_index_in (a # r) c = (if a = c then Some 0 else map_option Suc (b64_index_in r c))"

definition b64_index :: "char \<Rightarrow> nat option" where
  "b64_index c = b64_index_in b64_alphabet c"

fun b64_encode :: "nat list \<Rightarrow> string" where
  "b64_encode [] = []"
| "b64_encode [a] = [b64_char (a div 4), b64_char ((a mod 4) * 16), CHR ''='', CHR ''='']"
| "b64_encode [a, b] =
     [b64_char (a div 4), b64_char ((a mod 4) * 16 + b div 16), b64_char ((b mod 16) * 4), CHR ''='']"
| "b64_encode (a # b # c # r) =
     [b64_char (a div 4), b64_char ((a mod 4) * 16 + b div 16),
      b64_char ((b mod 16) * 4 + c div 64), b64_char (c mod 64)] @ b64_encode r"

definition btoa_std :: "string \<Rightarrow> exn + string" where
  "btoa_std s = Inr (b64_encode (map of_char s))"

fun b64_decode :: "nat list \<Rightarrow> nat list" where
  "b64_decode (a # b # c # d # r) =
     [a * 4 + b div 16, (b mod 16) * 16 + c div 4, (c mod 4) * 64 + d] @ b64_decode r"
| "b64_decode [a, b, c] = [a * 4 + b div 16, (b mod 16) * 16 + c div 4]"
| "b64_decode [a, b] = [a * 4 + b div 16]"
| "b64_decode r = []"

definition isAsciiWhitespace :: "char \<Rightarrow> bool" where
  "isAsciiWhitespace c = (c = CHR 0x09 \<or> c = LF \<or> c = CHR 0x0C \<or> c = CR \<or> c = CHR 0x20)"

definition strip_padding :: "string \<Rightarrow> string" where
  "strip_padding d =
     (if length d mod 4 = 0 then
        (if endsWith d ''=='' then take (length d - 2) d
         else if endsWith d ''='' then take (length d - 1) d
         else d)
      else d)"

definition atob_std :: "string \<Rightarrow> exn + string" where
  "atob_std s =
     (let d = strip_padding (filter (\<lambda>c. \<not> isAsciiWhitespace c) s)
      in if length d mod 4 = 1 then Inl ''InvalidCharacterError''
         else if list_ex (\<lambda>c. b64_index c = None) d then Inl ''InvalidCharacterError''
         else Inr (map char_of (b64_decode (map (\<lambda>c. the (b64_index c)) d))))"

text \<open>The JSON subset: an object whose values are strings.\<close>

fun json_escape :: "string \<Rightarrow> string" where
  "json_escape [] = []"
| "json_escape (c # cs) =
     (if c = DQ then [BSL, DQ]
      else if c = BSL then [BSL, BSL]
      else if c = LF then [BSL, CHR ''n'']
      else if c = CR then [BSL, CHR ''r'']
      else [c]) @ json_escape cs"

definition json_quote :: "string \<Rightarrow> string" where
  "json_quote s = DQ # json_escape s @ [DQ]"

fun json_member :: "string \<times> json \<Rightarrow> string option" where
  "json_member (k, JStr v) = Some (json_quote k @ '':'' @ json_quote v)"
| "json_member (k, v) = None"

definition stringify_flat :: "json \<Rightarrow> exn + string" where
  "stringify_flat v =
     (case v of
        JObj ob \<Rightarrow>
          (if list_all (\<lambda>m. json_member m \<noteq> None) ob
           then Inr (''{'' @ join '','' (map (\<lambda>m. the (json_member m)) ob) @ ''}'')
           else Inl ''value outside the JSON subset'')
      | _ \<Rightarrow> Inl ''value outside the JSON subset'')"

text \<open>\<open>scan_string\<close> reads a string literal after its opening quote.\<close>

fun scan_string :: "string \<Rightarrow> (string \<times> string) option" where
  "scan_string [] = None"
| "scan_string [c] = (if c = DQ then Some ([], []) else None)"
| "scan_string (c # e # r) =
     (if c = DQ then Some ([], e # r)
      else if c = BSL then
        (if e = CHR ''n'' then map_option (\<lambda>(s, t). (LF # s, t)) (scan_string r)
         else if e = CHR ''r'' then map_option (\<lambda>(s, t). (CR # s, t)) (scan_string r)
         else if e = DQ \<or> e = BSL then map_option (\<lambda>(s, t). (e # s, t)) (scan_string r)
         else None)
      else map_option (\<lambda>(s, t). (c # s, t)) (scan_string (e # r)))"

text \<open>\<open>scan_members\<close> reads \<open>"k":"v"\<close> members up to the closing brace.\<close>

fun scan_members :: "nat \<Rightarrow> string \<Rightarrow> obj option" where
  "scan_members 0 s = None"
| "scan_members (Suc fuel) s =
     (case s of
        q # s1 \<Rightarrow>
          (if q \<noteq> DQ then None
           else case scan_string s1 of
             None \<Rightarrow> None
           | Some (k, s2) \<Rightarrow>
               (case s2 of
                  col # q2 # s3 \<Rightarrow>
                    (if col \<noteq> CHR '':'' \<or> q2 \<noteq> DQ then None
                     else case scan_string s3 of
                       None \<Rightarrow> None
                     | Some (v, s4) \<Rightarrow>
                         (if s4 = ''}'' then Some [(k, JStr v)]
                          else case s4 of
                            sep # s5 \<Rightarrow>
                              (if sep \<noteq> CHR '','' then None
                               else map_option (\<lambda>ob. obj_put [] k (JStr v) @ ob) (scan_members fuel s5))
                          | [] \<Rightarrow> None))
                | _ \<Rightarrow> None))
      | [] \<Rightarrow> None)"

definition parse_flat :: "string \<Rightarrow> exn + json" where
  "parse_flat s =
     (if s = ''{}'' then Inr (JObj [])
      else case s of
        b # r \<Rightarrow>
          (if b \<noteq> CHR ''{'' then Inl ''Unexpected token in JSON''
           else case scan_members (length r) r of
             None \<Rightarrow> Inl ''Unexpected token in JSON''
           | Some ob \<Rightarrow> Inr (JObj ob))
      | [] \<Rightarrow> Inl ''Unexpected end of JSON input'')"

definition ref_lib :: codec_lib where
  "ref_lib =
     \<lparr> json_stringify = stringify_flat,
       json_parse = parse_flat,
       deflate = Inr,
       inflate = Inr,
       btoa = btoa_std,
       atob = atob_std \<rparr>"


section \<open>Properties of the signal codec\<close>

subsection \<open>The claim's words\<close>

text \<open>
  The strip-list of the specification, the lines it retains (trimmed, non-empty, with
  none of the listed prefixes), and what it means for the library functions to lose
  nothing on one value: stringify, deflate and \<open>btoa\<close> succeed on it and \<open>atob\<close>,
  inflate and parse take the result back.
\<close>

definition strip_list :: "string list" where
  "strip_list = [''a=rtpmap'', ''a=fmtp'', ''a=rtcp-fb'', ''a=ssrc'', ''a=extmap'', ''a=msid:'']"

definition spec_kept_lines :: "string list \<Rightarrow> string list" where
  "spec_kept_lines ls = filter (\<lambda>l. l \<noteq> [] \<and> \<not> list_ex (startsWith l) strip_list) (map trim ls)"

definition lossless_at :: "codec_lib \<Rightarrow> json \<Rightarrow> bool" where
  "lossless_at lib v =
     (case json_stringify lib v of
        Inl e \<Rightarrow> False
      | Inr js \<Rightarrow> (case deflate lib js of
          Inl e \<Rightarrow> False
        | Inr z \<Rightarrow> (case btoa lib z of
            Inl e \<Rightarrow> False
          | Inr b \<Rightarrow> atob lib (trim b) = Inr z \<and> inflate lib z = Inr js \<and> json_parse lib js = Inr v)))"


subsection \<open>Splitting, trimming and rejoining\<close>

definition strip_cr :: "string \<Rightarrow> string" where
  "strip_cr l = (if l \<noteq> [] \<and> last l = CR then butlast l else l)"

lemma strip_cr_Cons: "l \<noteq> [] \<Longrightarrow> strip_cr (a # l) = a # strip_cr l"
  by (simp add: strip_cr_def)

lemma split_newlines_line:
  "LF \<notin> set l \<Longrightarrow> split_newlines (l @ LF # rest) = strip_cr l # split_newlines rest"
proof (induction l)
  case Nil
  show ?case by (cases rest) (simp_all add: strip_cr_def)
next
  case (Cons a l)
  show ?case
  proof (cases l)
    case Nil
    with Cons.prems show ?thesis
      using Cons.IH by (cases rest) (auto simp: strip_cr_def)
  next
    case (Cons b l')
    with Cons.prems Cons.IH show ?thesis
      by (auto simp: strip_cr_Cons)
  qed
qed

lemma dropWhile_all: "\<forall>x\<in>set xs. P x \<Longrightarrow> dropWhile P xs = []"
  by (induction xs) auto

lemma trim_snoc_ws: "isWhiteSpace c \<Longrightarrow> trim (m @ [c]) = trim m"
proof (cases "\<forall>x\<in>set m. isWhiteSpace x")
  case True
  assume "isWhiteSpace c"
  with True show ?thesis by (simp add: trim_def dropWhile_all)
next
  case False
  assume c: "isWhiteSpace c"
  from False have "dropWhile isWhiteSpace (m @ [c]) = dropWhile isWhiteSpace m @ [c]"
    by (auto simp: dropWhile_append1)
  with c show ?thesis by (simp add: trim_def)
qed

lemma trim_strip_cr: "trim (strip_cr l) = trim l"
proof (cases "l \<noteq> [] \<and> last l = CR")
  case True
  then have "l = butlast l @ [CR]" by (metis append_butlast_last_id)
  then have "trim l = trim (butlast l)"
    using trim_snoc_ws [of CR "butlast l"] by (simp add: isWhiteSpace_def)
  with True show ?thesis by (simp add: strip_cr_def)
next
  case False
  then show ?thesis by (auto simp: strip_cr_def)
qed

lemma trim_Nil: "trim [] = []"
  by (simp add: trim_def)

lemma split_terminated:
  "\<forall>(l, t) \<in> set lts. LF \<notin> set l \<and> (t = CRLF \<or> t = [LF]) \<Longrightarrow>
   map trim (split_newlines (concat (map (\<lambda>(l, t). l @ t) lts))) = map (\<lambda>p. trim (fst p)) lts @ [[]]"
proof (induction lts)
  case Nil
  show ?case by (simp add: trim_Nil)
next
  case (Cons p lts)
  obtain l t where p: "p = (l, t)" by (cases p)
  from Cons.prems p have l: "LF \<notin> set l" and t: "t = CRLF \<or> t = [LF]" by auto
  from Cons.prems have IH: "map trim (split_newlines (concat (map (\<lambda>(l, t). l @ t) lts))) = map (\<lambda>p. trim (fst p)) lts @ [[]]"
    using Cons.IH by simp
  from t show ?case
  proof
    assume "t = CRLF"
    then have "concat (map (\<lambda>(l, t). l @ t) (p # lts)) = (l @ [CR]) @ LF # concat (map (\<lambda>(l, t). l @ t) lts)"
      by (simp add: p)
    moreover have "LF \<notin> set (l @ [CR])" using l by simp
    ultimately have "split_newlines (concat (map (\<lambda>(l, t). l @ t) (p # lts)))
        = strip_cr (l @ [CR]) # split_newlines (concat (map (\<lambda>(l, t). l @ t) lts))"
      using split_newlines_line by metis
    then show ?thesis using IH by (simp add: p strip_cr_def)
  next
    assume "t = [LF]"
    then have "concat (map (\<lambda>(l, t). l @ t) (p # lts)) = l @ LF # concat (map (\<lambda>(l, t). l @ t) lts)"
      by (simp add: p)
    then have "split_newlines (concat (map (\<lambda>(l, t). l @ t) (p # lts)))
        = strip_cr l # split_newlines (concat (map (\<lambda>(l, t). l @ t) lts))"
      using split_newlines_line [OF l] by simp
    then show ?thesis using IH by (simp add: p trim_strip_cr)
  qed
qed

lemma startsWith_both:
  "startsWith l p \<Longrightarrow> startsWith l q \<Longrightarrow> length p \<le> length q \<Longrightarrow> take (length p) q = p"
  unfolding startsWith_def by (metis min.absorb1 take_take)

lemma mid_not_junk: "startsWith l ''a=mid:'' \<Longrightarrow> \<not> isMediaJunk l"
  unfolding isMediaJunk_def
  using startsWith_both [of l "''a=mid:''"] startsWith_both [of l _ "''a=mid:''"]
  by fastforce

lemma msid_semantic_not_junk: "startsWith l ''a=msid-semantic:'' \<Longrightarrow> \<not> isMediaJunk l"
  unfolding isMediaJunk_def
  using startsWith_both [of l _ "''a=msid-semantic:''"]
  by fastforce

lemma keepLine_spec: "keepLine l = (l \<noteq> [] \<and> \<not> list_ex (startsWith l) strip_list)"
proof -
  have "list_ex (startsWith l) strip_list = isMediaJunk l"
    by (simp add: strip_list_def isMediaJunk_def)
  then show ?thesis
    using mid_not_junk msid_semantic_not_junk by (auto simp: keepLine_def)
qed


lemma join_crlf_concat:
  "ks \<noteq> [] \<Longrightarrow> join CRLF ks @ CRLF = concat (map (\<lambda>l. l @ CRLF) ks)"
  by (induction CRLF ks rule: join.induct) simp_all

lemma replace_newlines_line:
  "LF \<notin> set k \<Longrightarrow> replace_newlines (k @ CR # LF # rest) = k @ CR # LF # replace_newlines rest"
proof (induction k)
  case Nil
  show ?case by simp
next
  case (Cons a k)
  then show ?case by (cases k) auto
qed

lemma replace_newlines_joined:
  "\<forall>k\<in>set ks. LF \<notin> set k \<Longrightarrow> replace_newlines (join CRLF ks @ CRLF) = join CRLF ks @ CRLF"
proof (induction CRLF ks rule: join.induct)
  case 1
  show ?case by simp
next
  case (2 x)
  then show ?case using replace_newlines_line [of x "[]"] by simp
next
  case (3 x y r)
  then show ?case using replace_newlines_line [of x "join CRLF (y # r) @ CRLF"] by simp
qed

lemma endsWith_append: "endsWith (m @ p) p"
  by (simp add: endsWith_def)

lemma restoreSDP_joined:
  "\<forall>k\<in>set ks. LF \<notin> set k \<Longrightarrow> restoreSDP (join CRLF ks @ CRLF) = join CRLF ks @ CRLF"
  by (simp add: restoreSDP_def replace_newlines_joined endsWith_append Let_def)

lemma set_trim: "set (trim l) \<subseteq> set l"
proof -
  have "set (trim l) \<subseteq> set (dropWhile isWhiteSpace l)"
    unfolding trim_def using set_dropWhileD by fastforce
  also have "\<dots> \<subseteq> set l" using set_dropWhileD by fastforce
  finally show ?thesis .
qed

lemma minifySDP_terminated:
  assumes "\<forall>(l, t) \<in> set lts. LF \<notin> set l \<and> (t = CRLF \<or> t = [LF])"
  shows "minifySDP (concat (map (\<lambda>(l, t). l @ t) lts)) = join CRLF (spec_kept_lines (map fst lts)) @ CRLF"
proof -
  have k: "keepLine = (\<lambda>l. l \<noteq> [] \<and> \<not> list_ex (startsWith l) strip_list)"
    by (rule ext) (rule keepLine_spec)
  have "filter keepLine (map trim (split_newlines (concat (map (\<lambda>(l, t). l @ t) lts))))
      = filter keepLine (map (\<lambda>p. trim (fst p)) lts)"
    by (simp add: split_terminated [OF assms] keepLine_def)
  also have "\<dots> = spec_kept_lines (map fst lts)"
    by (simp add: spec_kept_lines_def k comp_def)
  finally show ?thesis by (simp add: minifySDP_def)
qed

lemma kept_no_LF:
  assumes "\<forall>(l, t) \<in> set lts. LF \<notin> set l \<and> (t = CRLF \<or> t = [LF])"
  shows "\<forall>k\<in>set (spec_kept_lines (map fst lts)). LF \<notin> set k"
proof
  fix k assume "k \<in> set (spec_kept_lines (map fst lts))"
  then obtain p where p: "p \<in> set lts" and k: "k = trim (fst p)"
    by (auto simp: spec_kept_lines_def)
  from assms p have "LF \<notin> set (fst p)" by (cases p) auto
  with k show "LF \<notin> set k" using set_trim by blast
qed


text \<open>
  C2. Let the SDP of a signal \<open>{type, sdp}\<close> be a non-empty sequence of lines, each ended
  by CRLF or LF, and let the library functions lose nothing on the shortened object.
  Then \<open>encodeSignal\<close> returns a string that \<open>decodeSignal\<close> takes to an object with
  the same \<open>type\<close>, whose \<open>sdp\<close> is exactly the retained lines (trimmed, non-empty, with
  none of the prefixes \<open>a=rtpmap\<close>, \<open>a=fmtp\<close>, \<open>a=rtcp-fb\<close>, \<open>a=ssrc\<close>, \<open>a=extmap\<close>,
  \<open>a=msid:\<close>), each followed by CRLF; it ends with CRLF. When no line is retained the
  \<open>sdp\<close> is a single CRLF.
\<close>

theorem decode_encode_signal:
  assumes nonempty: "lts \<noteq> []"
      and wf: "\<forall>(l, t) \<in> set lts. LF \<notin> set l \<and> (t = CRLF \<or> t = [LF])"
      and sdp: "sdp = concat (map (\<lambda>(l, t). l @ t) lts)"
      and kept: "kept = spec_kept_lines (map fst lts)"
      and r: "r = (if kept = [] then CRLF else concat (map (\<lambda>l. l @ CRLF) kept))"
      and lib: "lossless_at lib (JObj [(''t'', JStr ty), (''s'', JStr r)])"
  shows "(\<exists>e. encodeSignal lib [(''type'', JStr ty), (''sdp'', JStr sdp)] = Inr e \<and>
              decodeSignal lib e = Inr (JObj [(''type'', JStr ty), (''sdp'', JStr r)])) \<and>
         endsWith r CRLF"
proof -
  have m: "minifySDP sdp = join CRLF kept @ CRLF"
    unfolding sdp kept by (rule minifySDP_terminated [OF wf])
  have r': "r = join CRLF kept @ CRLF"
    using r join_crlf_concat [of kept] by (cases "kept = []") simp_all
  have rne: "r \<noteq> []" unfolding r' by simp
  obtain l t rest where lt: "lts = (l, t) # rest" using nonempty by (cases lts) auto
  from wf have "t = CRLF \<or> t = [LF]" unfolding lt by simp
  then have sne: "sdp \<noteq> []" unfolding sdp lt by auto
  have restore: "restoreSDP r = r"
    unfolding r' kept by (rule restoreSDP_joined [OF kept_no_LF [OF wf]])
  have mapped: "map_keys KEY_MAP (minify_payload [(''type'', JStr ty), (''sdp'', JStr sdp)]) []
      = [(''t'', JStr ty), (''s'', JStr r)]"
    using sne by (simp add: minify_payload_def obj_get_def KEY_MAP_def m r')
  from lib obtain js z b where
    s: "json_stringify lib (JObj [(''t'', JStr ty), (''s'', JStr r)]) = Inr js" and
    d: "deflate lib js = Inr z" and b: "btoa lib z = Inr b" and
    a: "atob lib (trim b) = Inr z" and i: "inflate lib z = Inr js" and
    p: "json_parse lib js = Inr (JObj [(''t'', JStr ty), (''s'', JStr r)])"
    by (auto simp: lossless_at_def split: sum.splits)
  have enc: "encodeSignal lib [(''type'', JStr ty), (''sdp'', JStr sdp)] = Inr b"
    by (simp add: encodeSignal_def encode_try_def mapped s d b)
  have dec: "decodeSignal lib b = Inr (JObj [(''type'', JStr ty), (''sdp'', JStr r)])"
    using rne by (simp add: decodeSignal_def decode_try_def a i p entries_def REV_KEY_MAP_def
        restore_data_def obj_get_def restore)
  show ?thesis using enc dec by (simp add: r' endsWith_append)
qed
theorem decode_encode_signal_witness:
  "(\<exists>e. encodeSignal ref_lib
          [(''type'', JStr ''offer''),
           (''sdp'', JStr (''v=0'' @ CRLF @ ''a=rtpmap:1 x'' @ [LF] @ ''  a=mid:0 '' @ CRLF))] = Inr e \<and>
        decodeSignal ref_lib e =
          Inr (JObj [(''type'', JStr ''offer''), (''sdp'', JStr (''v=0'' @ CRLF @ ''a=mid:0'' @ CRLF))])) \<and>
   endsWith (''v=0'' @ CRLF @ ''a=mid:0'' @ CRLF) CRLF"
proof -
  let ?lts = "[(''v=0'', CRLF), (''a=rtpmap:1 x'', [LF]), (''  a=mid:0 '', CRLF)]"
  have k: "spec_kept_lines (map fst ?lts) = [''v=0'', ''a=mid:0'']"
    by code_simp
  have l: "lossless_at ref_lib
             (JObj [(''t'', JStr ''offer''), (''s'', JStr (''v=0'' @ CRLF @ ''a=mid:0'' @ CRLF))])"
    by code_simp
  show ?thesis
    using decode_encode_signal [where lts = ?lts and lib = ref_lib and ty = "''offer''"
        and kept = "[''v=0'', ''a=mid:0'']" and r = "''v=0'' @ CRLF @ ''a=mid:0'' @ CRLF"
        and sdp = "''v=0'' @ CRLF @ ''a=rtpmap:1 x'' @ [LF] @ ''  a=mid:0 '' @ CRLF"] k l
    by simp
qed


section \<open>The state of the hook (src/hooks/useWebRTC.ts)\<close>

text \<open>
  The state variables and refs of \<open>useWebRTC\<close>, read at their current values. Times are
  the milliseconds of \<open>Date.now()\<close>, and the reads of the clock within one handler return
  one value. \<open>progress\<close> is a percentage or, where the source divides zero by zero,
  \<open>NaN\<close>; \<open>speed\<close> and \<open>eta\<close> are doubles, held as the rationals they are. The
  screen wake lock and the toasts are outside the model.
\<close>

datatype ConnectionState =
  CS_idle | CS_waiting_for_peer | CS_connecting | CS_connected | CS_disconnected | CS_error

datatype SignalStatus = SS_gathering | SS_ready

datatype TransferStatus = TS_queued | TS_transferring | TS_completed | TS_cancelled | TS_error

datatype Direction = Dir_send | Dir_receive

datatype Sender = Sender_me | Sender_peer

datatype progress = Pct nat | NaN

record FileTransfer =
  t_id :: string
  t_name :: string
  t_size :: nat
  t_progress :: progress
  t_speed :: rat
  t_status :: TransferStatus
  t_direction :: Direction
  t_eta :: "rat option"
  t_startTime :: "int option"
  t_endTime :: "int option"

record ChatMessage =
  m_id :: string
  m_text :: string
  m_sender :: Sender
  m_timestamp :: int

record File =
  f_name :: string
  f_bytes :: string

definition f_size :: "File \<Rightarrow> nat" where
  "f_size f = length (f_bytes f)"

text \<open>\<open>file.slice(start, end)\<close>\<close>

definition slice :: "File \<Rightarrow> nat \<Rightarrow> nat \<Rightarrow> string" where
  "slice f start fin = take (fin - start) (drop start (f_bytes f))"

text \<open>
  What travels on the data channel. A control message is a JSON text whose fields have
  the types of the protocol; \<open>msg.id\<close> may be absent. A payload is classified as the probe
  at the head of \<open>handleData\<close> reads it: \<open>Control\<close> when it is taken as JSON and is truthy,
  \<open>Chunk\<close> for a byte buffer that is not, \<open>NotJson\<close> for a string that is not.
\<close>

datatype message =
    FileMeta "string option" string nat nat
  | FileComplete
  | FileCancel "string option"
  | Chat string int
  | OtherJson

datatype data = Control message | Chunk string | NotJson

record Incoming =
  i_id :: string
  i_name :: string
  i_size :: nat
  i_totalChunks :: nat
  i_chunks :: "string list"
  i_receivedBytes :: nat
  i_startTime :: int

text \<open>
  A \<open>Peer\<close> instance of the peer library: what the hook can observe of it (\<open>destroyed\<close>),
  whether its data channel takes a \<open>send\<close>, and the arguments of the calls of \<open>signal\<close>
  and \<open>send\<close> it has received, in order. The instances live in a store, \<open>peers\<close>; a handle
  is an index into it, so that \<open>peerRef.current\<close> and the \<open>peer\<close> variable of a suspended
  send loop may name the same instance or different ones.
\<close>

record Peer =
  p_initiator :: bool
  p_destroyed :: bool
  p_open :: bool
  p_signals :: "json list"
  p_sent :: "data list"

text \<open>The local variables of \<open>processNextFile\<close> inside its \<open>for\<close> loop.\<close>

record locals =
  l_peer :: nat
  l_id :: string
  l_file :: File
  l_totalChunks :: nat
  l_currentStartTime :: int
  l_sentBytes :: nat
  l_lastProgressUpdate :: int
  l_i :: nat

text \<open>
  An invocation of \<open>processNextFile\<close> is suspended at one of its \<open>await\<close>s: on the wake
  lock, on the read of chunk \<open>i\<close> (and the back-pressure sleeps after it), or on the pause
  between two files.
\<close>

datatype frame = AwaitWakeLock | AwaitChunk locals | AwaitPause | Finished

record state =
  connectionState :: ConnectionState
  localSignal :: "string option"
  signalStatus :: "SignalStatus option"
  error :: "string option"
  transfers :: "FileTransfer list"
  messages :: "ChatMessage list"
  downloads :: "(string \<times> string) list"
  peers :: "Peer list"
  peerRef :: "nat option"
  sendQueue :: "(string \<times> File) list"
  isSending :: bool
  cancelledIds :: "string set"
  incoming :: "Incoming option"
  loops :: "frame list"
  webrtc_support :: bool

definition CHUNK_SIZE :: nat where "CHUNK_SIZE = 64 * 1024"
definition HIGH_WATER_MARK :: nat where "HIGH_WATER_MARK = 1024 * 1024"
definition PROGRESS_THROTTLE :: int where "PROGRESS_THROTTLE = 80"

definition initial :: "bool \<Rightarrow> state" where
  "initial supported =
     \<lparr> connectionState = CS_idle, localSignal = None, signalStatus = None, error = None,
       transfers = [], messages = [], downloads = [], peers = [], peerRef = None,
       sendQueue = [], isSending = False, cancelledIds = {}, incoming = None, loops = [],
       webrtc_support = supported \<rparr>"

subsection \<open>Numbers\<close>

text \<open>
  The numbers of the code are IEEE 754 doubles. Byte counts, sizes and times are integers
  below \<open>2^53\<close>, which are doubles; a quotient or a product of doubles is the exact result
  rounded to the nearest double, \<open>fl\<close>. For \<open>x\<close> with \<open>2^e \<le> |x| < 2^(e+1)\<close> the doubles
  around \<open>x\<close> are the multiples of \<open>2^(e-52)\<close>, and a tie goes to the even multiple. The
  range of the exponent is not modelled: no value computed below from such integers leaves it.
  \<open>bit_length n\<close> is the number of binary digits of \<open>n\<close>, and \<open>exponent x\<close> the \<open>e\<close> of a
  positive \<open>x\<close>, read from its numerator and denominator.
\<close>

fun bit_length :: "nat \<Rightarrow> nat" where
  "bit_length n = (if n = 0 then 0 else Suc (bit_length (n div 2)))"

definition pow2 :: "int \<Rightarrow> rat" where
  "pow2 k = (if 0 \<le> k then 2 ^ nat k else 1 / 2 ^ nat (- k))"

definition exponent :: "rat \<Rightarrow> int" where
  "exponent x =
     (case quotient_of x of
        (a, b) \<Rightarrow>
          (let d = int (bit_length (nat a)) - int (bit_length (nat b))
           in if pow2 d \<le> x then d else d - 1))"

definition round_even :: "rat \<Rightarrow> int" where
  "round_even x =
     (let f = \<lfloor>x\<rfloor>; d = x - of_int f
      in if d < 1 / 2 then f else if 1 / 2 < d then f + 1 else if even f then f else f + 1)"

definition fl :: "rat \<Rightarrow> rat" where
  "fl x = (if x = 0 then 0
           else (let u = pow2 (exponent \<bar>x\<bar> - 52) in of_int (round_even (x / u)) * u))"

text \<open>\<open>Math.round\<close>: the nearest integer, a tie going up.\<close>

definition math_round :: "rat \<Rightarrow> int" where
  "math_round x = \<lfloor>x + 1 / 2\<rfloor>"

text \<open>
  \<open>Math.min(100, Math.round((bytes / size) * 100))\<close>. With \<open>size = 0\<close> the quotient is
  \<open>NaN\<close> for \<open>bytes = 0\<close> and infinite otherwise.
\<close>

definition calc_progress :: "nat \<Rightarrow> nat \<Rightarrow> progress" where
  "calc_progress bytes sz =
     (if sz = 0 then (if bytes = 0 then NaN else Pct 100)
      else Pct (nat (min 100 (math_round (fl (fl (of_nat bytes / of_nat sz) * 100))))))"

text \<open>
  \<open>elapsed = (now - start) / 1000\<close>, \<open>speed = elapsed > 0 ? bytes / elapsed : 0\<close> and
  \<open>eta = speed > 0 ? (size - bytes) / speed : undefined\<close>.
\<close>

definition calc_speed :: "nat \<Rightarrow> int \<Rightarrow> int \<Rightarrow> rat" where
  "calc_speed bytes now start =
     (let elapsed = fl (of_int (now - start) / 1000)
      in if elapsed > 0 then fl (of_nat bytes / elapsed) else 0)"

definition calc_eta :: "nat \<Rightarrow> nat \<Rightarrow> rat \<Rightarrow> rat option" where
  "calc_eta sz bytes speed =
     (if speed > 0 then Some (fl ((of_nat sz - of_nat bytes) / speed)) else None)"

subsection \<open>Updates of the transfer list\<close>

text \<open>\<open>setTransfers((p) => p.map((t) => (t.id === id ? f(t) : t)))\<close>\<close>

definition update_transfer :: "string \<Rightarrow> (FileTransfer \<Rightarrow> FileTransfer) \<Rightarrow> state \<Rightarrow> state" where
  "update_transfer tid f s =
     s\<lparr>transfers := map (\<lambda>t. if t_id t = tid then f t else t) (transfers s)\<rparr>"

definition set_progress :: "nat \<Rightarrow> nat \<Rightarrow> int \<Rightarrow> int \<Rightarrow> FileTransfer \<Rightarrow> FileTransfer" where
  "set_progress bytes sz now start t =
     (let speed = calc_speed bytes now start
      in t\<lparr>t_progress := calc_progress bytes sz, t_speed := speed, t_eta := calc_eta sz bytes speed\<rparr>)"

definition mark_completed :: "int \<Rightarrow> FileTransfer \<Rightarrow> FileTransfer" where
  "mark_completed now t =
     t\<lparr>t_progress := Pct 100, t_status := TS_completed, t_speed := 0, t_endTime := Some now\<rparr>"

definition mark_cancelled :: "FileTransfer \<Rightarrow> FileTransfer" where
  "mark_cancelled t = t\<lparr>t_status := TS_cancelled, t_speed := 0\<rparr>"

definition mark_error :: "FileTransfer \<Rightarrow> FileTransfer" where
  "mark_error t = t\<lparr>t_status := TS_error, t_speed := 0\<rparr>"

subsection \<open>The incoming data handler\<close>

text \<open>\<open>msg.id || uid()\<close>, and \<open>msg.id || incomingRef.current?.id\<close> (\<open>None\<close> for \<open>undefined\<close>).\<close>

definition truthy :: "string option \<Rightarrow> bool" where
  "truthy v = (case v of None \<Rightarrow> False | Some x \<Rightarrow> x \<noteq> [])"

definition or_else :: "string option \<Rightarrow> string option \<Rightarrow> string option" where
  "or_else a b = (if truthy a then a else b)"

definition on_file_meta :: "int \<Rightarrow> string \<Rightarrow> message \<Rightarrow> state \<Rightarrow> state" where
  "on_file_meta now uid msg s =
     (case msg of
        FileMeta mid name sz nchunks \<Rightarrow>
          (let tid = (if truthy mid then the mid else uid)
           in s\<lparr>incoming := Some \<lparr> i_id = tid, i_name = name, i_size = sz, i_totalChunks = nchunks,
                                   i_chunks = [], i_receivedBytes = 0, i_startTime = now \<rparr>,
                transfers := transfers s @
                  [\<lparr> t_id = tid, t_name = name, t_size = sz, t_progress = Pct 0, t_speed = 0,
                     t_status = TS_transferring, t_direction = Dir_receive, t_eta = None,
                     t_startTime = Some now, t_endTime = None \<rparr>]\<rparr>)
      | _ \<Rightarrow> s)"

definition on_file_complete :: "int \<Rightarrow> message \<Rightarrow> state \<Rightarrow> state" where
  "on_file_complete now msg s =
     (case msg of
        FileComplete \<Rightarrow>
          (case incoming s of
             None \<Rightarrow> s
           | Some inc \<Rightarrow>
               (update_transfer (i_id inc) (mark_completed now)
                  (s\<lparr>downloads := downloads s @ [(i_name inc, concat (i_chunks inc))]\<rparr>))
               \<lparr>incoming := None\<rparr>)
      | _ \<Rightarrow> s)"

definition on_file_cancel :: "message \<Rightarrow> state \<Rightarrow> state" where
  "on_file_cancel msg s =
     (case msg of
        FileCancel mid \<Rightarrow>
          (let cancelId = or_else mid (map_option i_id (incoming s));
               s1 = (if truthy cancelId
                     then update_transfer (the cancelId) mark_cancelled
                            (s\<lparr>cancelledIds := insert (the cancelId) (cancelledIds s)\<rparr>)
                     else s)
           in if map_option i_id (incoming s1) = cancelId then s1\<lparr>incoming := None\<rparr> else s1)
      | _ \<Rightarrow> s)"

definition on_chat :: "string \<Rightarrow> message \<Rightarrow> state \<Rightarrow> state" where
  "on_chat uid msg s =
     (case msg of
        Chat txt ts \<Rightarrow>
          s\<lparr>messages := messages s @
              [\<lparr> m_id = uid, m_text = txt, m_sender = Sender_peer, m_timestamp = ts \<rparr>]\<rparr>
      | _ \<Rightarrow> s)"

definition on_chunk :: "int \<Rightarrow> string \<Rightarrow> state \<Rightarrow> state" where
  "on_chunk now chunk s =
     (case incoming s of
        None \<Rightarrow> s
      | Some inc0 \<Rightarrow>
          (let inc = inc0\<lparr>i_chunks := i_chunks inc0 @ [chunk],
                          i_receivedBytes := i_receivedBytes inc0 + length chunk\<rparr>
           in update_transfer (i_id inc)
                (set_progress (i_receivedBytes inc) (i_size inc) now (i_startTime inc))
                (s\<lparr>incoming := Some inc\<rparr>)))"

definition handleData :: "int \<Rightarrow> string \<Rightarrow> data \<Rightarrow> state \<Rightarrow> state" where
  "handleData now uid d s =
     (case d of
        Control msg \<Rightarrow>
          on_chat uid msg (on_file_cancel msg (on_file_complete now msg (on_file_meta now uid msg s)))
      | Chunk chunk \<Rightarrow> on_chunk now chunk s
      | NotJson \<Rightarrow> s)"

subsection \<open>The peer library, as the hook uses it\<close>

text \<open>
  \<open>new Peer\<close> throws where the environment has no WebRTC. \<open>peer.send\<close> throws on a
  destroyed peer and on a data channel that is not open; \<open>peer.signal\<close> throws on a
  destroyed peer. \<open>peer.destroy()\<close> marks the instance destroyed and closes its channel.
\<close>

definition new_peer :: "bool \<Rightarrow> Peer" where
  "new_peer initiator =
     \<lparr> p_initiator = initiator, p_destroyed = False, p_open = False, p_signals = [], p_sent = [] \<rparr>"

definition update_peer :: "nat \<Rightarrow> (Peer \<Rightarrow> Peer) \<Rightarrow> state \<Rightarrow> state" where
  "update_peer h f s = s\<lparr>peers := (peers s)[h := f (peers s ! h)]\<rparr>"

definition peer_destroyed :: "nat \<Rightarrow> state \<Rightarrow> bool" where
  "peer_destroyed h s = (if h < length (peers s) then p_destroyed (peers s ! h) else True)"

definition destroy :: "nat \<Rightarrow> state \<Rightarrow> state" where
  "destroy h s = update_peer h (\<lambda>p. p\<lparr>p_destroyed := True, p_open := False\<rparr>) s"

definition peer_send :: "nat \<Rightarrow> data \<Rightarrow> state \<Rightarrow> exn + state" where
  "peer_send h d s =
     (if peer_destroyed h s then Inl ''cannot send after peer is destroyed''
      else if \<not> p_open (peers s ! h) then Inl ''data channel is not open''
      else Inr (update_peer h (\<lambda>p. p\<lparr>p_sent := p_sent p @ [d]\<rparr>) s))"

definition peer_signal :: "nat \<Rightarrow> json \<Rightarrow> state \<Rightarrow> exn + state" where
  "peer_signal h sig s =
     (if peer_destroyed h s then Inl ''cannot signal after peer is destroyed''
      else Inr (update_peer h (\<lambda>p. p\<lparr>p_signals := p_signals p @ [sig]\<rparr>) s))"

subsection \<open>The connection controller\<close>

text \<open>
  \<open>createPeerInstance\<close> returns the handle of the new instance, or the exception of the
  constructor; the state it leaves is returned in both cases.
\<close>

definition createPeerInstance :: "bool \<Rightarrow> state \<Rightarrow> (exn + nat) \<times> state" where
  "createPeerInstance initiator s =
     (let s1 = (case peerRef s of Some h \<Rightarrow> destroy h s | None \<Rightarrow> s)
      in if \<not> webrtc_support s1 then (Inl ''No WebRTC support: Not a supported browser'', s1)
         else (Inr (length (peers s1)),
               s1\<lparr>peers := peers s1 @ [new_peer initiator], peerRef := Some (length (peers s1))\<rparr>))"

text \<open>The handlers \<open>createPeerInstance\<close> registers on the instance.\<close>

definition on_signal :: "codec_lib \<Rightarrow> obj \<Rightarrow> state \<Rightarrow> state" where
  "on_signal lib d s =
     (if obj_get d ''type'' = Some (JStr ''offer'') \<or> obj_get d ''type'' = Some (JStr ''answer'')
      then (case encodeSignal lib d of
              Inl e \<Rightarrow> s
            | Inr enc \<Rightarrow> s\<lparr>localSignal := Some enc, signalStatus := Some SS_ready,
                          connectionState := CS_waiting_for_peer\<rparr>)
      else s)"

definition on_connect :: "state \<Rightarrow> state" where
  "on_connect s = s\<lparr>connectionState := CS_connected, signalStatus := None, error := None\<rparr>"

definition on_close :: "state \<Rightarrow> state" where
  "on_close s = s\<lparr>connectionState := CS_disconnected, signalStatus := None, isSending := False\<rparr>"

text \<open>\<open>peer.on('error', ...)\<close>, with \<open>err.code\<close> and \<open>err.message\<close> (\<open>None\<close> for \<open>undefined\<close>).\<close>

definition on_error :: "string option \<Rightarrow> string option \<Rightarrow> state \<Rightarrow> state" where
  "on_error code message s =
     (let msg = the (or_else message (Some ''Connection failed''))
      in s\<lparr>error := Some (if str_includes msg ''Ice connection'' \<or> str_includes msg ''ICE''
                           then ''iceFailed''
                           else if code = Some ''ERR_WEBRTC_SUPPORT''
                           then ''WebRTC not supported or blocked by browser.''
                           else msg),
           connectionState := CS_error, signalStatus := None, isSending := False\<rparr>)"

definition createOffer :: "state \<Rightarrow> state" where
  "createOffer s =
     snd (createPeerInstance True
            (s\<lparr>error := None, localSignal := None, signalStatus := Some SS_gathering,
               connectionState := CS_connecting\<rparr>))"

definition isDecodeError :: "exn \<Rightarrow> bool" where
  "isDecodeError e = (str_includes e ''JSON'' \<or> str_includes e ''base64'')"

text \<open>The \<open>catch\<close> block of \<open>acceptOffer\<close>.\<close>

definition offer_failed :: "exn \<Rightarrow> state \<Rightarrow> state" where
  "offer_failed e s =
     s\<lparr>error := Some (if isDecodeError e then ''invalidOfferFormat'' else ''invalidOffer''),
       connectionState := CS_error, signalStatus := None\<rparr>"

definition acceptOffer :: "codec_lib \<Rightarrow> string \<Rightarrow> state \<Rightarrow> state" where
  "acceptOffer lib encodedOffer s =
     (if trim encodedOffer = [] then s
      else if connectionState s = CS_connected then s
      else (case createPeerInstance False
                   (s\<lparr>error := None, localSignal := None, signalStatus := Some SS_gathering,
                      connectionState := CS_connecting\<rparr>) of
              (Inl e, s2) \<Rightarrow> offer_failed e s2
            | (Inr h, s2) \<Rightarrow>
                (case decodeSignal lib (trim encodedOffer) of
                   Inl e \<Rightarrow> offer_failed e s2
                 | Inr sig \<Rightarrow> (case peer_signal h sig s2 of
                                 Inl e \<Rightarrow> offer_failed e s2
                               | Inr s3 \<Rightarrow> s3))))"

text \<open>The \<open>catch\<close> block of \<open>acceptAnswer\<close>.\<close>

definition answer_failed :: "exn \<Rightarrow> state \<Rightarrow> state" where
  "answer_failed e s =
     s\<lparr>error := Some (if isDecodeError e then ''invalidAnswerFormat'' else ''invalidAnswer''),
       connectionState := CS_error\<rparr>"

definition acceptAnswer :: "codec_lib \<Rightarrow> string \<Rightarrow> state \<Rightarrow> state" where
  "acceptAnswer lib encodedAnswer s =
     (if trim encodedAnswer = [] then s
      else if connectionState s = CS_connected then s
      else (let s1 = s\<lparr>error := None\<rparr>
            in case decodeSignal lib (trim encodedAnswer) of
                 Inl e \<Rightarrow> answer_failed e s1
               | Inr sig \<Rightarrow>
                   (case peerRef s1 of
                      None \<Rightarrow> answer_failed ''Peer not initialized'' s1
                    | Some h \<Rightarrow> (case peer_signal h sig s1 of
                                   Inl e \<Rightarrow> answer_failed e s1
                                 | Inr s2 \<Rightarrow> s2))))"

definition disconnect :: "state \<Rightarrow> state" where
  "disconnect s =
     (let s1 = (case peerRef s of Some h \<Rightarrow> destroy h s | None \<Rightarrow> s)
      in s1\<lparr>peerRef := None, connectionState := CS_idle, localSignal := None, signalStatus := None,
            transfers := [], messages := [], error := None, sendQueue := [], isSending := False,
            cancelledIds := {}, incoming := None\<rparr>)"

text \<open>The callback of the 180 s timer, armed while \<open>connectionState\<close> is \<open>connecting\<close>.\<close>

definition on_timeout :: "state \<Rightarrow> state" where
  "on_timeout s =
     (if connectionState s = CS_connecting
      then (let s1 = s\<lparr>error := Some ''connectionTimeout'', connectionState := CS_error\<rparr>
            in case peerRef s1 of Some h \<Rightarrow> destroy h s1 | None \<Rightarrow> s1)
      else s)"

definition clearError :: "state \<Rightarrow> state" where
  "clearError s = s\<lparr>error := None\<rparr>"

text \<open>An exception of \<open>peer.send\<close> is not caught in \<open>sendMessage\<close>: the handler ends there.\<close>

definition sendMessage :: "string \<Rightarrow> int \<Rightarrow> string \<Rightarrow> state \<Rightarrow> state" where
  "sendMessage txt now uid s =
     (if trim txt = [] then s
      else case peerRef s of
        None \<Rightarrow> s
      | Some h \<Rightarrow>
          (if peer_destroyed h s then s
           else case peer_send h (Control (Chat (trim txt) now)) s of
                  Inl e \<Rightarrow> s
                | Inr s1 \<Rightarrow>
                    s1\<lparr>messages := messages s1 @
                         [\<lparr> m_id = uid, m_text = trim txt, m_sender = Sender_me, m_timestamp = now \<rparr>]\<rparr>))"

subsection \<open>The send loop\<close>

text \<open>
  \<open>processNextFile\<close> is a coroutine. Its code between two \<open>await\<close>s runs without
  interruption and is one function below; while it is suspended any other handler may
  run. What the environment decides at a resumption is the \<open>tick\<close>: the clock, the
  \<open>bufferedAmount\<close> of the channel (0 when the peer has no channel), and whether the read
  of the chunk succeeded.
\<close>

record tick =
  tk_now :: int
  tk_buffered :: nat
  tk_read_ok :: bool

text \<open>The \<open>finally\<close> block: reached when the loop ends, by \<open>break\<close> or by an exception.\<close>

definition exit_loop :: "nat \<Rightarrow> state \<Rightarrow> state" where
  "exit_loop k s = s\<lparr>isSending := False, loops := (loops s)[k := Finished]\<rparr>"

definition suspend :: "nat \<Rightarrow> frame \<Rightarrow> state \<Rightarrow> state" where
  "suspend k fr s = s\<lparr>loops := (loops s)[k := fr]\<rparr>"

text \<open>
  After the \<open>for\<close> loop: \<open>file-complete\<close> unless the transfer failed or its id is in the
  cancelled set, then the pause of 200 ms.
\<close>

definition after_for :: "int \<Rightarrow> nat \<Rightarrow> locals \<Rightarrow> bool \<Rightarrow> state \<Rightarrow> state" where
  "after_for now k loc transferFailed s =
     (if \<not> transferFailed \<and> l_id loc \<notin> cancelledIds s
      then (case peer_send (l_peer loc) (Control FileComplete) s of
              Inl e \<Rightarrow> exit_loop k s
            | Inr s1 \<Rightarrow> suspend k AwaitPause (update_transfer (l_id loc) (mark_completed now) s1))
      else suspend k AwaitPause s)"

text \<open>The head of the \<open>for\<close> loop, up to the \<open>await\<close> of the read of chunk \<open>i\<close>.\<close>

definition for_head :: "int \<Rightarrow> nat \<Rightarrow> locals \<Rightarrow> state \<Rightarrow> state" where
  "for_head now k loc s =
     (if l_i loc < l_totalChunks loc then
        (if l_id loc \<in> cancelledIds s then
           (case peer_send (l_peer loc) (Control (FileCancel None)) s of
              Inl e \<Rightarrow> exit_loop k s
            | Inr s1 \<Rightarrow>
                after_for now k loc True
                  (update_transfer (l_id loc) mark_cancelled
                     (s1\<lparr>cancelledIds := cancelledIds s1 - {l_id loc}\<rparr>)))
         else if peer_destroyed (l_peer loc) s then
           after_for now k loc True (update_transfer (l_id loc) mark_error s)
         else suspend k (AwaitChunk loc) s)
      else after_for now k loc False s)"

text \<open>The head of the \<open>while\<close> loop, entered from the wake lock and from the pause.\<close>

definition loop_head :: "int \<Rightarrow> nat \<Rightarrow> state \<Rightarrow> state" where
  "loop_head now k s =
     (case sendQueue s of
        [] \<Rightarrow> exit_loop k s
      | (tid, file) # rest \<Rightarrow>
          (let s1 = s\<lparr>sendQueue := rest\<rparr>
           in case peerRef s1 of
                None \<Rightarrow> exit_loop k s1
              | Some h \<Rightarrow>
                  (if peer_destroyed h s1 then exit_loop k s1
                   else
                     (let totalChunks = (f_size file + CHUNK_SIZE - 1) div CHUNK_SIZE;
                          s2 = update_transfer tid
                                 (\<lambda>t. t\<lparr>t_status := TS_transferring, t_startTime := Some now\<rparr>) s1
                      in case peer_send h
                                (Control (FileMeta (Some tid) (f_name file) (f_size file) totalChunks)) s2 of
                           Inl e \<Rightarrow> exit_loop k s2
                         | Inr s3 \<Rightarrow>
                             for_head now k
                               \<lparr> l_peer = h, l_id = tid, l_file = file, l_totalChunks = totalChunks,
                                 l_currentStartTime = now, l_sentBytes = 0,
                                 l_lastProgressUpdate = 0, l_i = 0 \<rparr> s3))))"

text \<open>
  The body of the \<open>for\<close> loop after the read: back-pressure, the send of the chunk, the
  throttled progress update, and on to the head of the next iteration.
\<close>

definition after_read :: "tick \<Rightarrow> nat \<Rightarrow> locals \<Rightarrow> state \<Rightarrow> state" where
  "after_read tk k loc s =
     (if \<not> tk_read_ok tk then exit_loop k s
      else if tk_buffered tk > HIGH_WATER_MARK then s
      else
        (let start = l_i loc * CHUNK_SIZE;
             fin = min (start + CHUNK_SIZE) (f_size (l_file loc));
             chunk = slice (l_file loc) start fin
         in case peer_send (l_peer loc) (Chunk chunk) s of
              Inl e \<Rightarrow> after_for (tk_now tk) k loc True (update_transfer (l_id loc) mark_error s)
            | Inr s1 \<Rightarrow>
                (let sentBytes = l_sentBytes loc + length chunk;
                     publish = (tk_now tk - l_lastProgressUpdate loc > PROGRESS_THROTTLE
                                \<or> l_i loc = l_totalChunks loc - 1);
                     s2 = (if publish
                           then update_transfer (l_id loc)
                                  (set_progress sentBytes (f_size (l_file loc)) (tk_now tk)
                                     (l_currentStartTime loc)) s1
                           else s1)
                 in for_head (tk_now tk) k
                      (loc\<lparr>l_sentBytes := sentBytes,
                           l_lastProgressUpdate :=
                             (if publish then tk_now tk else l_lastProgressUpdate loc),
                           l_i := l_i loc + 1\<rparr>) s2)))"

definition resume :: "nat \<Rightarrow> tick \<Rightarrow> state \<Rightarrow> state" where
  "resume k tk s =
     (if k < length (loops s) then
        (case loops s ! k of
           AwaitWakeLock \<Rightarrow> loop_head (tk_now tk) k s
         | AwaitPause \<Rightarrow> loop_head (tk_now tk) k s
         | AwaitChunk loc \<Rightarrow> after_read tk k loc s
         | Finished \<Rightarrow> s)
      else s)"

text \<open>The start of \<open>processNextFile\<close>, up to its first \<open>await\<close>.\<close>

definition processNextFile :: "state \<Rightarrow> state" where
  "processNextFile s =
     (if isSending s then s else s\<lparr>isSending := True, loops := loops s @ [AwaitWakeLock]\<rparr>)"

subsection \<open>Queueing and cancelling\<close>

text \<open>\<open>sendFiles\<close>, with the \<open>uid()\<close> and the \<open>Date.now()\<close> drawn for each file.\<close>

definition queued_transfer :: "string \<times> int \<times> File \<Rightarrow> FileTransfer" where
  "queued_transfer e =
     (case e of (uid, now, file) \<Rightarrow>
        \<lparr> t_id = uid, t_name = f_name file, t_size = f_size file, t_progress = Pct 0, t_speed = 0,
          t_status = TS_queued, t_direction = Dir_send, t_eta = None, t_startTime = Some now,
          t_endTime = None \<rparr>)"

definition sendFiles :: "(string \<times> int \<times> File) list \<Rightarrow> state \<Rightarrow> state" where
  "sendFiles files s =
     (let s1 = s\<lparr>sendQueue := sendQueue s @ map (\<lambda>(uid, now, file). (uid, file)) files,
                 transfers := transfers s @ map queued_transfer files\<rparr>
      in if \<not> isSending s1 then processNextFile s1 else s1)"

text \<open>
  \<open>cancelTransfer\<close>. An exception of \<open>peer.send\<close> is not caught here: the handler ends
  with the id in the cancelled set and nothing else done.
\<close>

definition cancelTransfer :: "string \<Rightarrow> state \<Rightarrow> state" where
  "cancelTransfer tid s =
     (case find (\<lambda>t. t_id t = tid) (transfers s) of
        None \<Rightarrow> s
      | Some transfer \<Rightarrow>
          (let s1 = s\<lparr>cancelledIds := insert tid (cancelledIds s)\<rparr>;
               notified =
                 (case peerRef s1 of
                    None \<Rightarrow> Inr s1
                  | Some h \<Rightarrow>
                      (if t_status transfer = TS_transferring \<and> \<not> peer_destroyed h s1
                       then peer_send h (Control (FileCancel (Some tid))) s1
                       else Inr s1))
           in case notified of
                Inl e \<Rightarrow> s1
              | Inr s2 \<Rightarrow>
                  s2\<lparr>sendQueue := filter (\<lambda>e. fst e \<noteq> tid) (sendQueue s2),
                     transfers :=
                       map (\<lambda>t. if t_id t = tid \<and> (t_status t = TS_queued \<or> t_status t = TS_transferring)
                                then mark_cancelled t else t) (transfers s2)\<rparr>))"

subsection \<open>One step of the hook\<close>

text \<open>
  Everything that can happen: a command of the view-model, an event of a peer instance
  (with what the library does to the instance before it calls the handler), the timer,
  or the resumption of a suspended send loop.
\<close>

datatype action =
    CreateOffer
  | AcceptOffer string
  | AcceptAnswer string
  | Disconnect
  | ClearError
  | SendFiles "(string \<times> int \<times> File) list"
  | CancelTransfer string
  | SendMessage string int string
  | PeerSignal nat obj
  | PeerConnect nat
  | PeerData nat int string data
  | PeerClose nat
  | PeerError nat "string option" "string option"
  | Timeout
  | Resume nat tick

definition step :: "codec_lib \<Rightarrow> action \<Rightarrow> state \<Rightarrow> state" where
  "step lib a s =
     (case a of
        CreateOffer \<Rightarrow> createOffer s
      | AcceptOffer enc \<Rightarrow> acceptOffer lib enc s
      | AcceptAnswer enc \<Rightarrow> acceptAnswer lib enc s
      | Disconnect \<Rightarrow> disconnect s
      | ClearError \<Rightarrow> clearError s
      | SendFiles files \<Rightarrow> sendFiles files s
      | CancelTransfer tid \<Rightarrow> cancelTransfer tid s
      | SendMessage txt now uid \<Rightarrow> sendMessage txt now uid s
      | PeerSignal h d \<Rightarrow> (if h < length (peers s) then on_signal lib d s else s)
      | PeerConnect h \<Rightarrow>
          (if h < length (peers s) \<and> \<not> peer_destroyed h s
           then on_connect (update_peer h (\<lambda>p. p\<lparr>p_open := True\<rparr>) s) else s)
      | PeerData h now uid d \<Rightarrow> (if h < length (peers s) then handleData now uid d s else s)
      | PeerClose h \<Rightarrow> (if h < length (peers s) then on_close (destroy h s) else s)
      | PeerError h code message \<Rightarrow>
          (if h < length (peers s) then on_error code message (destroy h s) else s)
      | Timeout \<Rightarrow> on_timeout s
      | Resume k tk \<Rightarrow> resume k tk s)"

definition run :: "codec_lib \<Rightarrow> state \<Rightarrow> action list \<Rightarrow> state" where
  "run lib s as = foldl (\<lambda>s a. step lib a s) s as"


section \<open>Properties of the connection controller\<close>

lemma trim_all_ws: "\<forall>c\<in>set str. isWhiteSpace c \<Longrightarrow> trim str = []"
  by (simp add: trim_def dropWhile_all)

lemma trim_not_base64: "trim ''not base64!'' = ''not base64!''"
  by code_simp

lemma decode_not_base64:
  "decodeSignal ref_lib ''not base64!'' = Inl ''Failed to decode signaling data''"
  by code_simp

lemma decode_failure_not_classified: "\<not> isDecodeError ''Failed to decode signaling data''"
  by code_simp

lemma default_message_no_ice:
  "\<not> str_includes ''Connection failed'' ''Ice connection'' \<and>
   \<not> str_includes ''Connection failed'' ''ICE''"
  by code_simp

lemma no_support_message_no_ice:
  "\<not> str_includes ''No WebRTC support: Not a supported browser'' ''Ice connection'' \<and>
   \<not> str_includes ''No WebRTC support: Not a supported browser'' ''ICE''"
  by code_simp

text \<open>
  C10. On a string of whitespace only (the empty string included), and on any string
  when \<open>connectionState\<close> is \<open>connected\<close>, \<open>acceptOffer\<close> and \<open>acceptAnswer\<close> return the state
  they were given: no peer is constructed or signalled, and no field changes.
\<close>

theorem accept_noop:
  assumes "(\<forall>c\<in>set str. isWhiteSpace c) \<or> connectionState s = CS_connected"
  shows "acceptOffer lib str s = s \<and> acceptAnswer lib str s = s"
  using assms trim_all_ws [of str] by (auto simp: acceptOffer_def acceptAnswer_def)

theorem accept_noop_witness:
  "acceptOffer ref_lib [CHR 0x20, CHR 0x09, LF] (initial True) = initial True \<and>
   acceptAnswer ref_lib [CHR 0x20, CHR 0x09, LF] (initial True) = initial True \<and>
   acceptOffer ref_lib ''eyJ0IjoiIn0='' ((initial True)\<lparr>connectionState := CS_connected\<rparr>)
     = (initial True)\<lparr>connectionState := CS_connected\<rparr> \<and>
   acceptAnswer ref_lib ''eyJ0IjoiIn0='' ((initial True)\<lparr>connectionState := CS_connected\<rparr>)
     = (initial True)\<lparr>connectionState := CS_connected\<rparr>"
  using accept_noop [of "[CHR 0x20, CHR 0x09, LF]" "initial True" ref_lib]
    accept_noop [of "''eyJ0IjoiIn0=''" "(initial True)\<lparr>connectionState := CS_connected\<rparr>" ref_lib]
  by (simp add: isWhiteSpace_def)

text \<open>
  C5, as stated, fails on \<open>not base64!\<close>: \<open>decodeSignal\<close> replaces every failure of the codec
  by the message \<open>Failed to decode signaling data\<close>, which holds neither \<open>JSON\<close> nor
  \<open>base64\<close>, so the key is \<open>invalidOffer\<close>; and the responder peer is constructed before
  the string is decoded.
\<close>

theorem acceptOffer_invalid_counterexample:
  "error (acceptOffer ref_lib ''not base64!'' (initial True)) = Some ''invalidOffer'' \<and>
   error (acceptOffer ref_lib ''not base64!'' (initial True)) \<noteq> Some ''invalidOfferFormat'' \<and>
   peers (initial True) = [] \<and>
   peers (acceptOffer ref_lib ''not base64!'' (initial True)) = [new_peer False]"
  by (simp add: acceptOffer_def trim_not_base64 decode_not_base64 initial_def
      createPeerInstance_def offer_failed_def decode_failure_not_classified)

text \<open>
  C5, amended. For every input string that \<open>decodeSignal\<close> fails on (not blank, the state
  not \<open>connected\<close>, WebRTC available), \<open>acceptOffer\<close> first constructs a responder peer
  instance, which \<open>peerRef\<close> then names, and leaves \<open>connectionState\<close> at \<open>error\<close>,
  \<open>signalStatus\<close> at null and \<open>error\<close> at one of the two offer keys.
\<close>

theorem acceptOffer_undecodable:
  assumes "trim str \<noteq> []" and "connectionState s \<noteq> CS_connected" and "webrtc_support s"
      and "decodeSignal lib (trim str) = Inl e"
  shows "connectionState (acceptOffer lib str s) = CS_error \<and>
         signalStatus (acceptOffer lib str s) = None \<and>
         (error (acceptOffer lib str s) = Some ''invalidOffer'' \<or>
          error (acceptOffer lib str s) = Some ''invalidOfferFormat'') \<and>
         length (peers (acceptOffer lib str s)) = Suc (length (peers s)) \<and>
         peerRef (acceptOffer lib str s) = Some (length (peers s)) \<and>
         peers (acceptOffer lib str s) ! length (peers s) = new_peer False"
  using assms
  by (auto simp: acceptOffer_def createPeerInstance_def offer_failed_def destroy_def update_peer_def
      Let_def nth_append split: option.splits)

theorem acceptOffer_undecodable_witness:
  "connectionState (acceptOffer ref_lib ''not base64!'' (initial True)) = CS_error \<and>
   signalStatus (acceptOffer ref_lib ''not base64!'' (initial True)) = None \<and>
   length (peers (acceptOffer ref_lib ''not base64!'' (initial True))) = 1 \<and>
   peerRef (acceptOffer ref_lib ''not base64!'' (initial True)) = Some 0"
proof -
  have s: "webrtc_support (initial True)" "connectionState (initial True) \<noteq> CS_connected"
      "peers (initial True) = []"
    by (simp_all add: initial_def)
  have t: "trim ''not base64!'' \<noteq> []" by (simp add: trim_not_base64)
  have d: "decodeSignal ref_lib (trim ''not base64!'') = Inl ''Failed to decode signaling data''"
    by (simp add: trim_not_base64 decode_not_base64)
  show ?thesis
    using acceptOffer_undecodable [OF t s(2) s(1) d] s(3) by simp
qed

text \<open>
  C6, on the code. \<open>acceptAnswer\<close> on a string that decodes, with a live peer, feeds the
  decoded answer to the peer and leaves \<open>connectionState\<close> as it was: from
  \<open>waiting-for-peer\<close> it does not move to \<open>connecting\<close>.
\<close>

theorem acceptAnswer_keeps_connectionState:
  assumes "trim str \<noteq> []" and "connectionState s \<noteq> CS_connected"
      and "decodeSignal lib (trim str) = Inr sig"
      and "peerRef s = Some h" and "\<not> peer_destroyed h s"
  shows "connectionState (acceptAnswer lib str s) = connectionState s \<and>
         p_signals (peers (acceptAnswer lib str s) ! h) = p_signals (peers s ! h) @ [sig]"
  using assms
  by (auto simp: acceptAnswer_def peer_signal_def update_peer_def peer_destroyed_def Let_def
      split: if_splits)

lemma initiator_waiting:
  "run ref_lib (initial True)
     [CreateOffer, PeerSignal 0 [(''type'', JStr ''offer''), (''sdp'', JStr (''v=0'' @ CRLF))]]
   = \<lparr> connectionState = CS_waiting_for_peer,
       localSignal = Some ''eyJ0Ijoib2ZmZXIiLCJzIjoidj0wXHJcbiJ9'',
       signalStatus = Some SS_ready, error = None, transfers = [], messages = [], downloads = [],
       peers = [new_peer True], peerRef = Some 0, sendQueue = [], isSending = False,
       cancelledIds = {}, incoming = None, loops = [], webrtc_support = True \<rparr>"
  by code_simp

lemma decode_answer:
  "decodeSignal ref_lib (trim ''eyJ0IjoiYW5zd2VyIiwicyI6InY9MFxyXG4ifQ=='')
   = Inr (JObj [(''type'', JStr ''answer''), (''sdp'', JStr (''v=0'' @ CRLF))])"
  by code_simp

lemma trim_answer: "trim ''eyJ0IjoiYW5zd2VyIiwicyI6InY9MFxyXG4ifQ=='' \<noteq> []"
  by code_simp

theorem acceptAnswer_keeps_connectionState_witness:
  "connectionState
     (run ref_lib (initial True)
        [CreateOffer, PeerSignal 0 [(''type'', JStr ''offer''), (''sdp'', JStr (''v=0'' @ CRLF))]])
     = CS_waiting_for_peer \<and>
   connectionState
     (acceptAnswer ref_lib ''eyJ0IjoiYW5zd2VyIiwicyI6InY9MFxyXG4ifQ==''
        (run ref_lib (initial True)
           [CreateOffer, PeerSignal 0 [(''type'', JStr ''offer''), (''sdp'', JStr (''v=0'' @ CRLF))]]))
     = CS_waiting_for_peer \<and>
   p_signals
     (peers
        (acceptAnswer ref_lib ''eyJ0IjoiYW5zd2VyIiwicyI6InY9MFxyXG4ifQ==''
           (run ref_lib (initial True)
              [CreateOffer, PeerSignal 0 [(''type'', JStr ''offer''), (''sdp'', JStr (''v=0'' @ CRLF))]]))
      ! 0)
     = [JObj [(''type'', JStr ''answer''), (''sdp'', JStr (''v=0'' @ CRLF))]]"
  using acceptAnswer_keeps_connectionState [OF trim_answer _ decode_answer, of _ 0]
  unfolding initiator_waiting
  by (simp add: peer_destroyed_def new_peer_def)

lemma no_support_not_classified:
  "\<not> isDecodeError ''No WebRTC support: Not a supported browser''"
  by code_simp

lemma trim_offer: "trim ''eyJ0Ijoib2ZmZXIiLCJzIjoidj0wXHJcbiJ9'' \<noteq> []"
  by code_simp

text \<open>
  The branch of the \<open>error\<close> handler that tests the code \<open>ERR_WEBRTC_SUPPORT\<close>: were the
  event delivered with that code, and a message that holds neither \<open>Ice connection\<close> nor
  \<open>ICE\<close>, the handler would store an English sentence.
\<close>

lemma on_error_support_code:
  assumes "code = Some ''ERR_WEBRTC_SUPPORT''"
      and "\<forall>m. message = Some m \<longrightarrow> \<not> str_includes m ''Ice connection'' \<and> \<not> str_includes m ''ICE''"
  shows "error (on_error code message s) = Some ''WebRTC not supported or blocked by browser.'' \<and>
         connectionState (on_error code message s) = CS_error \<and>
         signalStatus (on_error code message s) = None"
  using assms default_message_no_ice
  by (cases message) (auto simp: on_error_def or_else_def truthy_def Let_def)

text \<open>
  C8, on the code. Where the environment has no WebRTC, the peer library reports it by
  throwing from \<open>new Peer\<close>, inside \<open>createPeerInstance\<close>: no instance exists, so no \<open>error\<close>
  event is delivered and the branch of the handler that tests the code is not reached.
  \<open>createOffer\<close> has no \<open>try\<close>: the exception leaves \<open>error\<close> at null and \<open>connectionState\<close>
  at \<open>connecting\<close>, with \<open>signalStatus\<close> at \<open>gathering\<close> and no new instance. \<open>acceptOffer\<close>,
  on a string that is not blank and in a state that is not \<open>connected\<close>, catches it as any
  other exception: \<open>error\<close> is \<open>invalidOffer\<close>. In neither case is \<open>error\<close> the key
  \<open>webrtcUnsupported\<close>, and after \<open>createOffer\<close> \<open>connectionState\<close> is not \<open>error\<close>.
\<close>

theorem unsupported_not_surfaced:
  assumes "\<not> webrtc_support s"
  shows "error (createOffer s) = None \<and>
         connectionState (createOffer s) = CS_connecting \<and>
         signalStatus (createOffer s) = Some SS_gathering \<and>
         length (peers (createOffer s)) = length (peers s) \<and>
         peerRef (createOffer s) = peerRef s \<and>
         (trim str \<noteq> [] \<and> connectionState s \<noteq> CS_connected \<longrightarrow>
            error (acceptOffer lib str s) = Some ''invalidOffer'' \<and>
            connectionState (acceptOffer lib str s) = CS_error \<and>
            length (peers (acceptOffer lib str s)) = length (peers s))"
  using assms no_support_not_classified
  by (auto simp: createOffer_def acceptOffer_def createPeerInstance_def offer_failed_def destroy_def
      update_peer_def Let_def split: option.splits)

theorem unsupported_not_surfaced_witness:
  "error (createOffer (initial False)) = None \<and>
   connectionState (createOffer (initial False)) = CS_connecting \<and>
   peers (createOffer (initial False)) = [] \<and>
   error (acceptOffer ref_lib ''eyJ0Ijoib2ZmZXIiLCJzIjoidj0wXHJcbiJ9'' (initial False))
     = Some ''invalidOffer'' \<and>
   connectionState (acceptOffer ref_lib ''eyJ0Ijoib2ZmZXIiLCJzIjoidj0wXHJcbiJ9'' (initial False))
     = CS_error \<and>
   peers (acceptOffer ref_lib ''eyJ0Ijoib2ZmZXIiLCJzIjoidj0wXHJcbiJ9'' (initial False)) = []"
proof -
  have s: "\<not> webrtc_support (initial False)" "connectionState (initial False) \<noteq> CS_connected"
      "peers (initial False) = []"
    by (simp_all add: initial_def)
  from unsupported_not_surfaced [OF s(1), of "''eyJ0Ijoib2ZmZXIiLCJzIjoidj0wXHJcbiJ9''" ref_lib]
    trim_offer s(2,3)
  show ?thesis by simp
qed


section \<open>Properties of the receive path\<close>

lemma handle_control:
  "handleData now uid (Control msg) s =
     on_chat uid msg (on_file_cancel msg (on_file_complete now msg (on_file_meta now uid msg s)))"
  by (simp add: handleData_def)

lemma complete_discards: "incoming (handleData now uid (Control FileComplete) s) = None"
  by (simp add: handle_control on_chat_def on_file_cancel_def on_file_complete_def on_file_meta_def
      update_transfer_def split: option.splits)

text \<open>
  C9. A payload that is handled as a binary chunk while no assembly exists (none was
  created, or \<open>file-complete\<close> or \<open>file-cancel\<close> discarded it) leaves the whole state as it
  was: the bytes are dropped.
\<close>

theorem chunk_without_assembly:
  assumes "incoming s = None"
  shows "handleData now uid (Chunk bytes) s = s \<and>
         step lib (PeerData h now uid (Chunk bytes)) s = s"
  using assms by (simp add: handleData_def on_chunk_def step_def)

theorem chunk_without_assembly_witness:
  "handleData 7 ''u'' (Chunk ''abc'') (initial True) = initial True \<and>
   handleData 7 ''u'' (Chunk ''abc'') (handleData 5 ''v'' (Control FileComplete) (handleData 1 ''w'' (Control (FileMeta (Some ''A'') ''a.bin'' 0 0)) (initial True)))
   = handleData 5 ''v'' (Control FileComplete) (handleData 1 ''w'' (Control (FileMeta (Some ''A'') ''a.bin'' 0 0)) (initial True))"
  using chunk_without_assembly [of "initial True" 7 "''u''" "''abc''"]
        chunk_without_assembly [OF complete_discards, of 7 "''u''" "''abc''"]
  by (simp add: initial_def)

text \<open>
  C7, as stated, fails: a \<open>file-meta\<close> that arrives over an unfinished assembly replaces the
  assembly and appends a record; the record of the prior transfer is not touched and
  stays \<open>transferring\<close>.
\<close>

theorem meta_over_unfinished_counterexample:
  "map t_id (transfers (handleData 2 ''u2'' (Control (FileMeta (Some ''B'') ''b.bin'' 10 1))
       (handleData 1 ''u1'' (Control (FileMeta (Some ''A'') ''a.bin'' 10 1)) (initial True)))) = [''A'', ''B''] \<and>
   map t_status (transfers (handleData 2 ''u2'' (Control (FileMeta (Some ''B'') ''b.bin'' 10 1))
       (handleData 1 ''u1'' (Control (FileMeta (Some ''A'') ''a.bin'' 10 1)) (initial True)))) = [TS_transferring, TS_transferring] \<and>
   map_option i_id (incoming (handleData 1 ''u1'' (Control (FileMeta (Some ''A'') ''a.bin'' 10 1)) (initial True))) = Some ''A''"
  by code_simp

text \<open>
  C7, amended. Whenever a \<open>file-meta\<close> is received while an unfinished assembly exists, the
  assembly is replaced by an empty one for the new file and one \<open>transferring\<close> record is
  appended for it; every record already in the list, the prior transfer's included, is
  left as it was.
\<close>

theorem meta_over_unfinished:
  assumes "incoming s = Some inc"
  shows "transfers (handleData now uid (Control (FileMeta mid name sz n)) s) =
           transfers s @
             [\<lparr> t_id = (if truthy mid then the mid else uid), t_name = name, t_size = sz,
                t_progress = Pct 0, t_speed = 0, t_status = TS_transferring,
                t_direction = Dir_receive, t_eta = None, t_startTime = Some now, t_endTime = None \<rparr>] \<and>
         incoming (handleData now uid (Control (FileMeta mid name sz n)) s) =
           Some \<lparr> i_id = (if truthy mid then the mid else uid), i_name = name, i_size = sz,
                  i_totalChunks = n, i_chunks = [], i_receivedBytes = 0, i_startTime = now \<rparr>"
  by (simp add: handle_control on_chat_def on_file_cancel_def on_file_complete_def on_file_meta_def Let_def)

theorem meta_over_unfinished_witness:
  "transfers (handleData 2 ''u2'' (Control (FileMeta (Some ''B'') ''b.bin'' 10 1))
       (handleData 1 ''u1'' (Control (FileMeta (Some ''A'') ''a.bin'' 10 1)) (initial True))) =
     transfers (handleData 1 ''u1'' (Control (FileMeta (Some ''A'') ''a.bin'' 10 1)) (initial True)) @
       [\<lparr> t_id = ''B'', t_name = ''b.bin'', t_size = 10, t_progress = Pct 0, t_speed = 0,
          t_status = TS_transferring, t_direction = Dir_receive, t_eta = None,
          t_startTime = Some 2, t_endTime = None \<rparr>]"
proof -
  have "incoming (handleData 1 ''u1'' (Control (FileMeta (Some ''A'') ''a.bin'' 10 1)) (initial True))
      = Some \<lparr> i_id = ''A'', i_name = ''a.bin'', i_size = 10, i_totalChunks = 1, i_chunks = [],
               i_receivedBytes = 0, i_startTime = 1 \<rparr>"
    by code_simp
  from meta_over_unfinished [OF this, of 2 "''u2''" "Some ''B''" "''b.bin''" 10 1]
  show ?thesis by (simp add: truthy_def)
qed


section \<open>Properties of the send loop\<close>

subsection \<open>The chunks of a file\<close>

text \<open>
  The number of chunks the loop computes, the bytes it reads for chunk \<open>i\<close>, and the list
  of all the chunks of a file.
\<close>

definition totalChunks_of :: "File \<Rightarrow> nat" where
  "totalChunks_of f = (f_size f + CHUNK_SIZE - 1) div CHUNK_SIZE"

definition file_chunk :: "File \<Rightarrow> nat \<Rightarrow> string" where
  "file_chunk f i = slice f (i * CHUNK_SIZE) (min (i * CHUNK_SIZE + CHUNK_SIZE) (f_size f))"

definition file_chunks :: "File \<Rightarrow> string list" where
  "file_chunks f = map (file_chunk f) [0..<totalChunks_of f]"

lemma file_chunk_take: "file_chunk f i = take CHUNK_SIZE (drop (i * CHUNK_SIZE) (f_bytes f))"
  by (simp add: file_chunk_def slice_def f_size_def min_def)

lemma concat_pieces: "concat (map (\<lambda>i. take c (drop (i * c) xs)) [0..<n]) = take (n * c) xs"
proof (induction n)
  case 0
  show ?case by simp
next
  case (Suc n)
  have "take (n * c) xs @ take c (drop (n * c) xs) = take (n * c + c) xs"
    by (simp add: take_add)
  with Suc show ?case by (simp add: add.commute)
qed

lemma div_bounds:
  fixes a :: nat
  shows "a div 65536 * 65536 \<le> a \<and> a < a div 65536 * 65536 + 65536"
proof -
  have "a div 65536 * 65536 + a mod 65536 = a" by (rule div_mult_mod_eq)
  moreover have "a mod 65536 < 65536" by simp
  ultimately show ?thesis by linarith
qed

lemma totalChunks_covers: "f_size f \<le> totalChunks_of f * CHUNK_SIZE"
  using div_bounds [of "f_size f + 65535"]
  unfolding totalChunks_of_def CHUNK_SIZE_def by simp

lemma concat_file_chunks: "concat (file_chunks f) = f_bytes f"
proof -
  have "file_chunks f = map (\<lambda>i. take CHUNK_SIZE (drop (i * CHUNK_SIZE) (f_bytes f))) [0..<totalChunks_of f]"
    by (simp add: file_chunks_def file_chunk_take)
  then have "concat (file_chunks f) = take (totalChunks_of f * CHUNK_SIZE) (f_bytes f)"
    by (simp add: concat_pieces)
  then show ?thesis using totalChunks_covers [of f] by (simp add: f_size_def)
qed

lemma length_file_chunk: "length (file_chunk f i) = min CHUNK_SIZE (f_size f - i * CHUNK_SIZE)"
  by (simp add: file_chunk_take f_size_def)

lemma full_chunk:
  assumes "Suc i < totalChunks_of f"
  shows "length (file_chunk f i) = CHUNK_SIZE"
proof -
  have "Suc (Suc i) \<le> (f_size f + 65535) div 65536"
    using assms unfolding totalChunks_of_def CHUNK_SIZE_def by simp
  then have "Suc (Suc i) * 65536 \<le> (f_size f + 65535) div 65536 * 65536"
    by (rule mult_le_mono1)
  with div_bounds [of "f_size f + 65535"] have "i * 65536 + 65536 \<le> f_size f"
    by simp
  then show ?thesis unfolding length_file_chunk CHUNK_SIZE_def by simp
qed

lemma last_chunk:
  assumes "totalChunks_of f = Suc m"
  shows "0 < length (file_chunk f m) \<and> length (file_chunk f m) \<le> CHUNK_SIZE"
proof -
  have "(f_size f + 65535) div 65536 = Suc m"
    using assms unfolding totalChunks_of_def CHUNK_SIZE_def by simp
  with div_bounds [of "f_size f + 65535"] have "m * 65536 < f_size f"
    by simp
  then show ?thesis
    unfolding length_file_chunk CHUNK_SIZE_def by simp
qed

lemma totalChunks_ceiling: "int (totalChunks_of f) = \<lceil>real (f_size f) / 65536\<rceil>"
proof -
  have "\<lceil>real (f_size f) / 65536\<rceil> = \<lceil>of_int (int (f_size f)) / (of_int 65536 :: real)\<rceil>"
    by simp
  also have "\<dots> = - (- int (f_size f) div 65536)"
    by (rule ceiling_divide_eq_div)
  also have "\<dots> = int ((f_size f + 65535) div 65536)"
    by (simp add: zdiv_int)
  finally show ?thesis by (simp add: totalChunks_of_def CHUNK_SIZE_def)
qed


subsection \<open>A run of the loop on one file\<close>

text \<open>
  A resumption is \<open>clean\<close> when the read succeeded and the channel is not above the high
  water mark. \<open>sending k h tid file i s\<close>: in state \<open>s\<close> the loop \<open>k\<close> is suspended in the read
  of chunk \<open>i\<close> of \<open>file\<close>, whose transfer is \<open>tid\<close>, on a live peer \<open>h\<close> with an open
  channel, and \<open>tid\<close> is not in the cancelled set. \<open>status_of\<close> is the status of the record
  that \<open>transfers.find\<close> returns for an id.
\<close>

definition clean :: "tick \<Rightarrow> bool" where
  "clean tk = (tk_read_ok tk \<and> tk_buffered tk \<le> HIGH_WATER_MARK)"

definition sending :: "nat \<Rightarrow> nat \<Rightarrow> string \<Rightarrow> File \<Rightarrow> nat \<Rightarrow> state \<Rightarrow> bool" where
  "sending k h tid file i s =
     (k < length (loops s) \<and>
      (case loops s ! k of
         AwaitChunk loc \<Rightarrow> l_peer loc = h \<and> l_id loc = tid \<and> l_file loc = file \<and>
                            l_totalChunks loc = totalChunks_of file \<and> l_i loc = i
       | _ \<Rightarrow> False) \<and>
      \<not> peer_destroyed h s \<and> p_open (peers s ! h) \<and> tid \<notin> cancelledIds s)"

definition status_of :: "string \<Rightarrow> FileTransfer list \<Rightarrow> TransferStatus option" where
  "status_of tid ts = map_option t_status (find (\<lambda>t. t_id t = tid) ts)"

text \<open>What one clean resumption at chunk \<open>i\<close> does up to the head of the next iteration.\<close>

definition publish_due :: "tick \<Rightarrow> locals \<Rightarrow> bool" where
  "publish_due tk loc =
     (tk_now tk - l_lastProgressUpdate loc > PROGRESS_THROTTLE \<or> l_i loc = l_totalChunks loc - 1)"

definition chunk_sent :: "tick \<Rightarrow> locals \<Rightarrow> state \<Rightarrow> state" where
  "chunk_sent tk loc s =
     (let c = file_chunk (l_file loc) (l_i loc);
          s1 = update_peer (l_peer loc) (\<lambda>p. p\<lparr>p_sent := p_sent p @ [Chunk c]\<rparr>) s
      in if publish_due tk loc
         then update_transfer (l_id loc)
                (set_progress (l_sentBytes loc + length c) (f_size (l_file loc)) (tk_now tk)
                   (l_currentStartTime loc)) s1
         else s1)"

definition next_locals :: "tick \<Rightarrow> locals \<Rightarrow> locals" where
  "next_locals tk loc =
     loc\<lparr>l_sentBytes := l_sentBytes loc + length (file_chunk (l_file loc) (l_i loc)),
         l_lastProgressUpdate := (if publish_due tk loc then tk_now tk else l_lastProgressUpdate loc),
         l_i := l_i loc + 1\<rparr>"

lemma peer_send_ok:
  "\<not> peer_destroyed h s \<Longrightarrow> p_open (peers s ! h) \<Longrightarrow>
   peer_send h d s = Inr (update_peer h (\<lambda>p. p\<lparr>p_sent := p_sent p @ [d]\<rparr>) s)"
  by (simp add: peer_send_def)

lemma peers_update_transfer [simp]: "peers (update_transfer tid f s) = peers s"
  and loops_update_transfer [simp]: "loops (update_transfer tid f s) = loops s"
  and cancelled_update_transfer [simp]: "cancelledIds (update_transfer tid f s) = cancelledIds s"
  by (simp_all add: update_transfer_def)

lemma loops_update_peer [simp]: "loops (update_peer h f s) = loops s"
  and cancelled_update_peer [simp]: "cancelledIds (update_peer h f s) = cancelledIds s"
  and length_peers_update_peer [simp]: "length (peers (update_peer h f s)) = length (peers s)"
  by (simp_all add: update_peer_def)

lemma nth_peers_update_peer [simp]:
  "h < length (peers s) \<Longrightarrow> peers (update_peer h f s) ! h = f (peers s ! h)"
  by (simp add: update_peer_def)

lemma peers_suspend [simp]: "peers (suspend k fr s) = peers s"
  and cancelled_suspend [simp]: "cancelledIds (suspend k fr s) = cancelledIds s"
  and loops_suspend [simp]: "loops (suspend k fr s) = (loops s)[k := fr]"
  by (simp_all add: suspend_def)

lemma peer_destroyed_cong:
  "peers s' = peers s \<Longrightarrow> peer_destroyed h s' = peer_destroyed h s"
  by (simp add: peer_destroyed_def)

lemma alive_in_store: "\<not> peer_destroyed h s \<Longrightarrow> h < length (peers s)"
  by (simp add: peer_destroyed_def split: if_splits)

lemma peer_destroyed_after_send [simp]:
  "peer_destroyed h (update_peer h (\<lambda>p. p\<lparr>p_sent := p_sent p @ [d]\<rparr>) s) = peer_destroyed h s"
  by (simp add: peer_destroyed_def update_peer_def)

lemma after_read_clean:
  assumes "clean tk" and "\<not> peer_destroyed (l_peer loc) s" and "p_open (peers s ! l_peer loc)"
  shows "after_read tk k loc s = for_head (tk_now tk) k (next_locals tk loc) (chunk_sent tk loc s)"
  using assms(1) peer_send_ok [OF assms(2,3)]
  by (simp add: after_read_def clean_def file_chunk_def chunk_sent_def next_locals_def
      publish_due_def Let_def)

lemma next_locals_simps [simp]:
  "l_peer (next_locals tk loc) = l_peer loc" "l_id (next_locals tk loc) = l_id loc"
  "l_file (next_locals tk loc) = l_file loc" "l_totalChunks (next_locals tk loc) = l_totalChunks loc"
  "l_i (next_locals tk loc) = Suc (l_i loc)"
  by (simp_all add: next_locals_def)

lemma chunk_sent_simps [simp]:
  "peers (chunk_sent tk loc s) =
     peers (update_peer (l_peer loc)
              (\<lambda>p. p\<lparr>p_sent := p_sent p @ [Chunk (file_chunk (l_file loc) (l_i loc))]\<rparr>) s)"
  "loops (chunk_sent tk loc s) = loops s"
  "cancelledIds (chunk_sent tk loc s) = cancelledIds s"
  "sendQueue (chunk_sent tk loc s) = sendQueue s"
  "map t_id (transfers (chunk_sent tk loc s)) = map t_id (transfers s)"
  "map t_status (transfers (chunk_sent tk loc s)) = map t_status (transfers s)"
  by (simp_all add: chunk_sent_def update_transfer_def update_peer_def set_progress_def Let_def comp_def)

lemma send_chunk_step:
  assumes "sending k h tid file i s" and "clean tk" and "Suc i < totalChunks_of file"
  shows "sending k h tid file (Suc i) (resume k tk s) \<and>
         p_sent (peers (resume k tk s) ! h) = p_sent (peers s ! h) @ [Chunk (file_chunk file i)]"
proof -
  from assms(1) obtain loc where k: "k < length (loops s)" and fr: "loops s ! k = AwaitChunk loc"
    and loc: "l_peer loc = h" "l_id loc = tid" "l_file loc = file"
      "l_totalChunks loc = totalChunks_of file" "l_i loc = i"
    and alive: "\<not> peer_destroyed h s" "p_open (peers s ! h)" and nc: "tid \<notin> cancelledIds s"
    by (auto simp: sending_def split: frame.splits)
  have h: "h < length (peers s)" using alive(1) by (rule alive_in_store)
  define s2 where "s2 = chunk_sent tk loc s"
  define loc' where "loc' = next_locals tk loc"
  have ar: "after_read tk k loc s = for_head (tk_now tk) k loc' s2"
    unfolding s2_def loc'_def using after_read_clean [OF assms(2), of loc s k] alive loc by simp
  have loc': "l_peer loc' = h" "l_id loc' = tid" "l_file loc' = file"
      "l_totalChunks loc' = totalChunks_of file" "l_i loc' = Suc i"
    unfolding loc'_def using loc by simp_all
  have s2: "peers s2 = peers (update_peer h (\<lambda>p. p\<lparr>p_sent := p_sent p @ [Chunk (file_chunk file i)]\<rparr>) s)"
      "loops s2 = loops s" "cancelledIds s2 = cancelledIds s"
    unfolding s2_def using loc by simp_all
  have d2: "\<not> peer_destroyed h s2"
    using alive(1) peer_destroyed_cong [OF s2(1), of h] by simp
  have fh: "for_head (tk_now tk) k loc' s2 = suspend k (AwaitChunk loc') s2"
    using loc' assms(3) nc s2(3) d2 by (simp add: for_head_def)
  have r: "resume k tk s = suspend k (AwaitChunk loc') s2"
    using k fr ar fh by (simp add: resume_def)
  show ?thesis
    unfolding r using k h loc' s2 alive nc d2
    by (simp add: sending_def peer_destroyed_cong [of "suspend k (AwaitChunk loc') s2" s2])
qed

lemma send_last_chunk_step:
  assumes "sending k h tid file i s" and "clean tk" and "Suc i = totalChunks_of file"
  shows "loops (resume k tk s) ! k = AwaitPause \<and>
         p_sent (peers (resume k tk s) ! h) =
           p_sent (peers s ! h) @ [Chunk (file_chunk file i), Control FileComplete]"
proof -
  from assms(1) obtain loc where k: "k < length (loops s)" and fr: "loops s ! k = AwaitChunk loc"
    and loc: "l_peer loc = h" "l_id loc = tid" "l_file loc = file"
      "l_totalChunks loc = totalChunks_of file" "l_i loc = i"
    and alive: "\<not> peer_destroyed h s" "p_open (peers s ! h)" and nc: "tid \<notin> cancelledIds s"
    by (auto simp: sending_def split: frame.splits)
  have h: "h < length (peers s)" using alive(1) by (rule alive_in_store)
  define s2 where "s2 = chunk_sent tk loc s"
  define loc' where "loc' = next_locals tk loc"
  have ar: "after_read tk k loc s = for_head (tk_now tk) k loc' s2"
    unfolding s2_def loc'_def using after_read_clean [OF assms(2), of loc s k] alive loc by simp
  have loc': "l_peer loc' = h" "l_id loc' = tid" "l_file loc' = file"
      "l_totalChunks loc' = totalChunks_of file" "l_i loc' = Suc i"
    unfolding loc'_def using loc by simp_all
  have s2: "peers s2 = peers (update_peer h (\<lambda>p. p\<lparr>p_sent := p_sent p @ [Chunk (file_chunk file i)]\<rparr>) s)"
      "loops s2 = loops s" "cancelledIds s2 = cancelledIds s"
    unfolding s2_def using loc by simp_all
  have d2: "\<not> peer_destroyed h s2"
    using alive(1) peer_destroyed_cong [OF s2(1), of h] by simp
  have o2: "p_open (peers s2 ! h)" using s2(1) h alive(2) by simp
  have fh: "for_head (tk_now tk) k loc' s2 =
      suspend k AwaitPause (update_transfer tid (mark_completed (tk_now tk))
        (update_peer h (\<lambda>p. p\<lparr>p_sent := p_sent p @ [Control FileComplete]\<rparr>) s2))"
    using loc' assms(3) nc s2(3) peer_send_ok [OF d2 o2]
    by (simp add: for_head_def after_for_def)
  have r: "resume k tk s = suspend k AwaitPause (update_transfer tid (mark_completed (tk_now tk))
        (update_peer h (\<lambda>p. p\<lparr>p_sent := p_sent p @ [Control FileComplete]\<rparr>) s2))"
    using k fr ar fh by (simp add: resume_def)
  show ?thesis
    unfolding r using k h s2 by simp
qed

lemma run_Nil [simp]: "run lib s [] = s"
  by (simp add: run_def)

lemma run_Cons [simp]: "run lib s (a # as) = run lib (step lib a s) as"
  by (simp add: run_def)

lemma step_Resume [simp]: "step lib (Resume k tk) s = resume k tk s"
  by (simp add: step_def)

lemma send_chunks:
  assumes "sending k h tid file i s" and "i < totalChunks_of file"
      and "length tks = totalChunks_of file - i" and "\<forall>tk\<in>set tks. clean tk"
  shows "loops (run lib s (map (Resume k) tks)) ! k = AwaitPause \<and>
         p_sent (peers (run lib s (map (Resume k) tks)) ! h) =
           p_sent (peers s ! h) @ map (\<lambda>j. Chunk (file_chunk file j)) [i..<totalChunks_of file] @
           [Control FileComplete]"
  using assms
proof (induction tks arbitrary: i s)
  case Nil
  then show ?case by simp
next
  case (Cons tk tks)
  from Cons.prems(4) have c: "clean tk" and cs: "\<forall>tk\<in>set tks. clean tk" by simp_all
  show ?case
  proof (cases "Suc i < totalChunks_of file")
    case True
    from send_chunk_step [OF Cons.prems(1) c True]
    have s': "sending k h tid file (Suc i) (resume k tk s)"
      and w: "p_sent (peers (resume k tk s) ! h) = p_sent (peers s ! h) @ [Chunk (file_chunk file i)]"
      by simp_all
    have l: "length tks = totalChunks_of file - Suc i" using Cons.prems(3) by simp
    from Cons.IH [OF s' True l cs] w Cons.prems(2) show ?thesis
      by (simp add: upt_conv_Cons)
  next
    case False
    with Cons.prems(2) have e: "Suc i = totalChunks_of file" by simp
    with Cons.prems(3) have "length tks = 0" by (simp del: length_0_conv)
    then have "tks = []" by simp
    moreover have "[i..<totalChunks_of file] = [i]" using e by (simp add: upt_conv_Cons)
    ultimately show ?thesis
      using send_last_chunk_step [OF Cons.prems(1) c e] by simp
  qed
qed


subsection \<open>A run of the loop over the queue\<close>

text \<open>
  \<open>enqueued files\<close> is what \<open>sendFiles\<close> appends to the queue. \<open>file_wire\<close> is what the
  claim expects on the wire for one entry of the queue: the \<open>file-meta\<close> with the number of
  chunks the loop computes, the chunks of the file in order, and the \<open>file-complete\<close>.
  \<open>ticks_for q\<close> is the number of resumptions the loop needs for the queue \<open>q\<close>: for each
  file one to leave the wake lock or the pause, and one for each chunk read.

  \<open>live_frame h s fr\<close>: the frame \<open>fr\<close> of a loop is not finished, and when it is suspended
  in the read of a chunk, the file in flight is on the peer \<open>h\<close>, its chunk count is the
  one the loop computed, a chunk remains to be read, and its id is not in the cancelled set.
  \<open>remaining fr\<close> is what is still to be sent for the file in flight, and
  \<open>remaining_ticks fr\<close> the number of resumptions that takes.

  \<open>ready k h q s\<close>: in \<open>s\<close> the loop \<open>k\<close> exists, \<open>peerRef\<close> is the live peer \<open>h\<close> with an
  open channel, the queue is \<open>q\<close>, and no id of the queue is in the cancelled set.
  \<open>at_head k s\<close>: the loop \<open>k\<close> is suspended in the wake lock or in the pause between files.
\<close>

lemmas hook_defs =
  step_def resume_def sendFiles_def processNextFile_def cancelTransfer_def loop_head_def for_head_def
  after_for_def after_read_def suspend_def exit_loop_def peer_send_def peer_destroyed_def update_peer_def
  update_transfer_def queued_transfer_def mark_cancelled_def mark_completed_def mark_error_def
  set_progress_def slice_def f_size_def
  CHUNK_SIZE_def HIGH_WATER_MARK_def PROGRESS_THROTTLE_def initial_def new_peer_def Let_def

definition enqueued :: "(string \<times> int \<times> File) list \<Rightarrow> (string \<times> File) list" where
  "enqueued files = map (\<lambda>(uid, now, file). (uid, file)) files"

definition file_wire :: "string \<times> File \<Rightarrow> data list" where
  "file_wire e =
     (case e of (tid, file) \<Rightarrow>
        [Control (FileMeta (Some tid) (f_name file) (f_size file) (totalChunks_of file))] @
        map Chunk (file_chunks file) @ [Control FileComplete])"

definition ticks_for :: "(string \<times> File) list \<Rightarrow> nat" where
  "ticks_for q = sum_list (map (\<lambda>e. Suc (totalChunks_of (snd e))) q)"

definition live_frame :: "nat \<Rightarrow> state \<Rightarrow> frame \<Rightarrow> bool" where
  "live_frame h s fr =
     (case fr of
        AwaitWakeLock \<Rightarrow> True
      | AwaitPause \<Rightarrow> True
      | AwaitChunk loc \<Rightarrow> l_peer loc = h \<and> l_totalChunks loc = totalChunks_of (l_file loc) \<and>
                           l_i loc < l_totalChunks loc \<and> l_id loc \<notin> cancelledIds s
      | Finished \<Rightarrow> False)"

definition remaining :: "frame \<Rightarrow> data list" where
  "remaining fr =
     (case fr of
        AwaitChunk loc \<Rightarrow>
          map (\<lambda>j. Chunk (file_chunk (l_file loc) j)) [l_i loc..<l_totalChunks loc] @
          [Control FileComplete]
      | _ \<Rightarrow> [])"

definition remaining_ticks :: "frame \<Rightarrow> nat" where
  "remaining_ticks fr = (case fr of AwaitChunk loc \<Rightarrow> l_totalChunks loc - l_i loc | _ \<Rightarrow> 0)"

definition ready :: "nat \<Rightarrow> nat \<Rightarrow> (string \<times> File) list \<Rightarrow> state \<Rightarrow> bool" where
  "ready k h q s =
     (k < length (loops s) \<and> peerRef s = Some h \<and> \<not> peer_destroyed h s \<and> p_open (peers s ! h) \<and>
      sendQueue s = q \<and> (\<forall>e\<in>set q. fst e \<notin> cancelledIds s))"

definition at_head :: "nat \<Rightarrow> state \<Rightarrow> bool" where
  "at_head k s = (loops s ! k = AwaitWakeLock \<or> loops s ! k = AwaitPause)"

lemma peerRef_update_transfer [simp]: "peerRef (update_transfer tid f s) = peerRef s"
  and sendQueue_update_transfer [simp]: "sendQueue (update_transfer tid f s) = sendQueue s"
  by (simp_all add: update_transfer_def)

lemma peerRef_update_peer [simp]: "peerRef (update_peer h f s) = peerRef s"
  and sendQueue_update_peer [simp]: "sendQueue (update_peer h f s) = sendQueue s"
  by (simp_all add: update_peer_def)

lemma peerRef_suspend [simp]: "peerRef (suspend k fr s) = peerRef s"
  and sendQueue_suspend [simp]: "sendQueue (suspend k fr s) = sendQueue s"
  by (simp_all add: suspend_def)

lemma peerRef_chunk_sent [simp]: "peerRef (chunk_sent tk loc s) = peerRef s"
  by (simp add: chunk_sent_def Let_def)

lemma run_append: "run lib s (as @ bs) = run lib (run lib s as) bs"
  by (simp add: run_def)

lemma resume_sending:
  assumes "sending k h tid file i s" and "clean tk"
  shows "\<exists>loc. l_peer loc = h \<and> l_file loc = file \<and> l_i loc = i \<and>
           resume k tk s =
             (if Suc i < totalChunks_of file
              then suspend k (AwaitChunk (next_locals tk loc)) (chunk_sent tk loc s)
              else suspend k AwaitPause
                     (update_transfer tid (mark_completed (tk_now tk))
                        (update_peer h (\<lambda>p. p\<lparr>p_sent := p_sent p @ [Control FileComplete]\<rparr>)
                           (chunk_sent tk loc s))))"
proof -
  from assms(1) obtain loc where k: "k < length (loops s)" and fr: "loops s ! k = AwaitChunk loc"
    and loc: "l_peer loc = h" "l_id loc = tid" "l_file loc = file"
      "l_totalChunks loc = totalChunks_of file" "l_i loc = i"
    and alive: "\<not> peer_destroyed h s" "p_open (peers s ! h)" and nc: "tid \<notin> cancelledIds s"
    by (auto simp: sending_def split: frame.splits)
  have h: "h < length (peers s)" using alive(1) by (rule alive_in_store)
  define s2 where "s2 = chunk_sent tk loc s"
  define loc' where "loc' = next_locals tk loc"
  have ar: "after_read tk k loc s = for_head (tk_now tk) k loc' s2"
    unfolding s2_def loc'_def using after_read_clean [OF assms(2), of loc s k] alive loc by simp
  have loc': "l_peer loc' = h" "l_id loc' = tid" "l_file loc' = file"
      "l_totalChunks loc' = totalChunks_of file" "l_i loc' = Suc i"
    unfolding loc'_def using loc by simp_all
  have s2: "peers s2 = peers (update_peer h (\<lambda>p. p\<lparr>p_sent := p_sent p @ [Chunk (file_chunk file i)]\<rparr>) s)"
      "loops s2 = loops s" "cancelledIds s2 = cancelledIds s"
    unfolding s2_def using loc by simp_all
  have d2: "\<not> peer_destroyed h s2"
    using alive(1) peer_destroyed_cong [OF s2(1), of h] by simp
  have o2: "p_open (peers s2 ! h)" using s2(1) h alive(2) by simp
  have r: "resume k tk s = for_head (tk_now tk) k loc' s2"
    using k fr ar by (simp add: resume_def)
  have "resume k tk s =
             (if Suc i < totalChunks_of file
              then suspend k (AwaitChunk loc') s2
              else suspend k AwaitPause
                     (update_transfer tid (mark_completed (tk_now tk))
                        (update_peer h (\<lambda>p. p\<lparr>p_sent := p_sent p @ [Control FileComplete]\<rparr>) s2)))"
    unfolding r using loc' nc s2(3) d2 peer_send_ok [OF d2 o2]
    by (simp add: for_head_def after_for_def)
  then show ?thesis unfolding s2_def loc'_def using loc by blast
qed

lemma ready_after_chunk:
  assumes "sending k h tid file i s" and "clean tk" and "ready k h q s"
  shows "ready k h q (resume k tk s)"
proof -
  from resume_sending [OF assms(1,2)] obtain loc where loc: "l_peer loc = h"
    and r: "resume k tk s =
             (if Suc i < totalChunks_of file
              then suspend k (AwaitChunk (next_locals tk loc)) (chunk_sent tk loc s)
              else suspend k AwaitPause
                     (update_transfer tid (mark_completed (tk_now tk))
                        (update_peer h (\<lambda>p. p\<lparr>p_sent := p_sent p @ [Control FileComplete]\<rparr>)
                           (chunk_sent tk loc s))))"
    by blast
  from assms(3) have h: "h < length (peers s)"
    by (simp add: ready_def alive_in_store)
  show ?thesis
    unfolding r using assms(3) h loc
    by (simp add: ready_def peer_destroyed_def update_peer_def)
qed

lemma send_chunks_ready:
  assumes "sending k h tid file i s" and "i < totalChunks_of file"
      and "length tks = totalChunks_of file - i" and "\<forall>tk\<in>set tks. clean tk"
      and "ready k h q s"
  shows "ready k h q (run lib s (map (Resume k) tks))"
  using assms
proof (induction tks arbitrary: i s)
  case Nil
  then show ?case by simp
next
  case (Cons tk tks)
  from Cons.prems(4) have c: "clean tk" and cs: "\<forall>tk\<in>set tks. clean tk" by simp_all
  note rd = ready_after_chunk [OF Cons.prems(1) c Cons.prems(5)]
  show ?case
  proof (cases "Suc i < totalChunks_of file")
    case True
    from send_chunk_step [OF Cons.prems(1) c True]
    have s': "sending k h tid file (Suc i) (resume k tk s)" by simp
    have l: "length tks = totalChunks_of file - Suc i" using Cons.prems(3) by simp
    from Cons.IH [OF s' True l cs rd] show ?thesis by simp
  next
    case False
    with Cons.prems(2) have e: "Suc i = totalChunks_of file" by simp
    with Cons.prems(3) have "length tks = 0" by (simp del: length_0_conv)
    then have "tks = []" by simp
    then show ?thesis using rd by simp
  qed
qed

lemma head_step:
  assumes rd: "ready k h ((tid, file) # rest) s" and hd: "at_head k s"
  shows "ready k h rest (resume k tk s) \<and>
         (if totalChunks_of file = 0
          then at_head k (resume k tk s) \<and>
               p_sent (peers (resume k tk s) ! h) =
                 p_sent (peers s ! h) @
                 [Control (FileMeta (Some tid) (f_name file) (f_size file) 0), Control FileComplete]
          else sending k h tid file 0 (resume k tk s) \<and>
               p_sent (peers (resume k tk s) ! h) =
                 p_sent (peers s ! h) @
                 [Control (FileMeta (Some tid) (f_name file) (f_size file) (totalChunks_of file))])"
proof -
  let ?now = "tk_now tk"
  from rd have k: "k < length (loops s)" and q: "sendQueue s = (tid, file) # rest"
    and p: "peerRef s = Some h" and alive: "\<not> peer_destroyed h s" "p_open (peers s ! h)"
    and nc: "tid \<notin> cancelledIds s" and ncs: "\<forall>e\<in>set rest. fst e \<notin> cancelledIds s"
    by (simp_all add: ready_def)
  have r: "resume k tk s = loop_head ?now k s"
    using k hd by (auto simp: resume_def at_head_def)
  have h: "h < length (peers s)" using alive(1) by (rule alive_in_store)
  let ?s1 = "s\<lparr>sendQueue := rest\<rparr>"
  let ?s2 = "update_transfer tid (\<lambda>t. t\<lparr>t_status := TS_transferring, t_startTime := Some ?now\<rparr>) ?s1"
  let ?meta = "Control (FileMeta (Some tid) (f_name file) (f_size file) (totalChunks_of file))"
  let ?s3 = "update_peer h (\<lambda>p. p\<lparr>p_sent := p_sent p @ [?meta]\<rparr>) ?s2"
  let ?loc = "\<lparr> l_peer = h, l_id = tid, l_file = file, l_totalChunks = totalChunks_of file,
                l_currentStartTime = ?now, l_sentBytes = 0, l_lastProgressUpdate = 0, l_i = 0 \<rparr>"
  have d1: "\<not> peer_destroyed h ?s1"
    using alive(1) peer_destroyed_cong [of ?s1 s h] by simp
  have d2: "\<not> peer_destroyed h ?s2" "p_open (peers ?s2 ! h)"
    using alive peer_destroyed_cong [of ?s2 s h] by simp_all
  have lh: "loop_head ?now k s = for_head ?now k ?loc ?s3"
    using q p d1 peer_send_ok [OF d2]
    by (simp add: loop_head_def totalChunks_of_def Let_def)
  have d3: "\<not> peer_destroyed h ?s3" "p_open (peers ?s3 ! h)" "cancelledIds ?s3 = cancelledIds s"
      "loops ?s3 = loops s" "p_sent (peers ?s3 ! h) = p_sent (peers s ! h) @ [?meta]"
      "peerRef ?s3 = Some h" "sendQueue ?s3 = rest"
    using d2 h p by simp_all
  have rd3: "ready k h rest ?s3"
    using d3 k ncs by (simp add: ready_def)
  show ?thesis
  proof (cases "totalChunks_of file = 0")
    case True
    let ?s4 = "update_transfer tid (mark_completed ?now)
          (update_peer h (\<lambda>p. p\<lparr>p_sent := p_sent p @ [Control FileComplete]\<rparr>) ?s3)"
    have fh: "for_head ?now k ?loc ?s3 = suspend k AwaitPause ?s4"
      using True nc d3(3) peer_send_ok [OF d3(1,2)] by (simp add: for_head_def after_for_def)
    have "ready k h rest (suspend k AwaitPause ?s4)"
      using rd3 h by (simp add: ready_def peer_destroyed_def update_peer_def)
    then show ?thesis unfolding r lh fh using True k h by (simp add: at_head_def)
  next
    case False
    have fh: "for_head ?now k ?loc ?s3 = suspend k (AwaitChunk ?loc) ?s3"
      using False nc d3(1,3) by (simp add: for_head_def)
    have "ready k h rest (suspend k (AwaitChunk ?loc) ?s3)"
      using rd3 h by (simp add: ready_def peer_destroyed_def update_peer_def)
    then show ?thesis
      unfolding r lh fh using False k h d3 nc
      by (simp add: sending_def peer_destroyed_cong [of "suspend k (AwaitChunk ?loc) ?s3" ?s3])
  qed
qed

lemma ticks_for_Cons [simp]: "ticks_for ((tid, file) # q) = Suc (totalChunks_of file + ticks_for q)"
  and ticks_for_Nil [simp]: "ticks_for [] = 0"
  by (simp_all add: ticks_for_def)

lemma drain_queue:
  assumes "ready k h q s" and "at_head k s"
      and "length tks = ticks_for q" and "\<forall>tk\<in>set tks. clean tk"
  shows "p_sent (peers (run lib s (map (Resume k) tks)) ! h) =
           p_sent (peers s ! h) @ concat (map file_wire q)"
  using assms
proof (induction q arbitrary: s tks)
  case Nil
  then show ?case by simp
next
  case (Cons e rest)
  obtain tid f where e: "e = (tid, f)" by (cases e)
  let ?n = "totalChunks_of f"
  from Cons.prems(3) obtain tk0 tks' where tks: "tks = tk0 # tks'"
    and l': "length tks' = ?n + ticks_for rest"
    unfolding e by (cases tks) auto
  define ta where "ta = take ?n tks'"
  define tb where "tb = drop ?n tks'"
  have ab: "tks' = ta @ tb" "length ta = ?n" "length tb = ticks_for rest"
    unfolding ta_def tb_def using l' by simp_all
  have ca: "\<forall>tk\<in>set ta. clean tk" and cb: "\<forall>tk\<in>set tb. clean tk"
    using Cons.prems(4) unfolding tks ab(1) by simp_all
  let ?s1 = "resume k tk0 s"
  note hs = head_step [OF Cons.prems(1) [unfolded e] Cons.prems(2), of tk0]
  from hs have rd1: "ready k h rest ?s1" by simp
  show ?case
  proof (cases "?n = 0")
    case True
    with hs have h1: "at_head k ?s1"
      and w1: "p_sent (peers ?s1 ! h) = p_sent (peers s ! h) @
                 [Control (FileMeta (Some tid) (f_name f) (f_size f) 0), Control FileComplete]"
      by simp_all
    have "ta = []" using ab(2) True by simp
    with Cons.IH [OF rd1 h1 ab(3) cb] w1 True show ?thesis
      unfolding tks ab(1) e by (simp add: file_wire_def file_chunks_def)
  next
    case False
    with hs have sd: "sending k h tid f 0 ?s1"
      and w1: "p_sent (peers ?s1 ! h) = p_sent (peers s ! h) @
                 [Control (FileMeta (Some tid) (f_name f) (f_size f) ?n)]"
      by simp_all
    let ?s2 = "run lib ?s1 (map (Resume k) ta)"
    have pos: "0 < ?n" and la: "length ta = ?n - 0" using False ab(2) by simp_all
    from send_chunks [OF sd pos la ca, of lib]
    have h2: "at_head k ?s2"
      and w2: "p_sent (peers ?s2 ! h) = p_sent (peers ?s1 ! h) @
                 map (\<lambda>j. Chunk (file_chunk f j)) [0..<?n] @ [Control FileComplete]"
      by (simp_all add: at_head_def)
    note rd2 = send_chunks_ready [OF sd pos la ca rd1, of lib]
    have "run lib s (map (Resume k) tks) = run lib ?s2 (map (Resume k) tb)"
      unfolding tks ab(1) by (simp add: run_append)
    with Cons.IH [OF rd2 h2 ab(3) cb] w1 w2 show ?thesis
      unfolding e by (simp add: file_wire_def file_chunks_def comp_def)
  qed
qed

lemma sendFiles_busy:
  "isSending s \<Longrightarrow>
   sendFiles files s = s\<lparr>sendQueue := sendQueue s @ enqueued files,
                         transfers := transfers s @ map queued_transfer files\<rparr>"
  by (simp add: sendFiles_def enqueued_def)

lemma sendFiles_start:
  "\<not> isSending s \<Longrightarrow>
   sendFiles files s = s\<lparr>sendQueue := sendQueue s @ enqueued files,
                         transfers := transfers s @ map queued_transfer files,
                         isSending := True, loops := loops s @ [AwaitWakeLock]\<rparr>"
  by (simp add: sendFiles_def processNextFile_def enqueued_def)

lemma ticks_for_append [simp]: "ticks_for (q @ q') = ticks_for q + ticks_for q'"
  by (simp add: ticks_for_def)

lemma send_files_wire:
  assumes peer: "peerRef s = Some h" "\<not> peer_destroyed h s" "p_open (peers s ! h)"
      and loop: "if isSending s then k < length (loops s) \<and> live_frame h s (loops s ! k)
                 else k = length (loops s)"
      and fresh: "\<forall>e\<in>set (sendQueue s @ enqueued files). fst e \<notin> cancelledIds s"
      and ticks: "length tks = (if isSending s then remaining_ticks (loops s ! k) else 0) +
                               ticks_for (sendQueue s @ enqueued files)"
                 "\<forall>tk\<in>set tks. clean tk"
  shows "p_sent (peers (run lib s (SendFiles files # map (Resume k) tks)) ! h) =
           p_sent (peers s ! h) @ (if isSending s then remaining (loops s ! k) else []) @
           concat (map file_wire (sendQueue s @ enqueued files))"
proof (cases "isSending s")
  case False
  let ?q = "sendQueue s @ enqueued files"
  let ?s0 = "sendFiles files s"
  have s0: "?s0 = s\<lparr>sendQueue := ?q, transfers := transfers s @ map queued_transfer files,
                         isSending := True, loops := loops s @ [AwaitWakeLock]\<rparr>"
    by (rule sendFiles_start [OF False])
  have k: "k = length (loops s)" using loop False by simp
  have p0: "peers ?s0 = peers s" unfolding s0 by simp
  have rd: "ready k h ?q ?s0"
    unfolding ready_def using peer fresh k peer_destroyed_cong [OF p0, of h]
    by (simp add: s0)
  have hd: "at_head k ?s0" unfolding s0 by (simp add: at_head_def k)
  have l: "length tks = ticks_for ?q" using ticks(1) False by simp
  from drain_queue [OF rd hd l ticks(2), of lib] False show ?thesis
    by (simp add: step_def p0)
next
  case True
  let ?q = "sendQueue s @ enqueued files"
  let ?s0 = "sendFiles files s"
  have s0: "?s0 = s\<lparr>sendQueue := ?q, transfers := transfers s @ map queued_transfer files\<rparr>"
    by (rule sendFiles_busy [OF True])
  from loop True have k: "k < length (loops s)" and lf: "live_frame h s (loops s ! k)" by simp_all
  have p0: "peers ?s0 = peers s" "loops ?s0 = loops s" "cancelledIds ?s0 = cancelledIds s"
    unfolding s0 by simp_all
  have a0: "\<not> peer_destroyed h ?s0" using peer(2) peer_destroyed_cong [OF p0(1), of h] by simp
  have rd: "ready k h ?q ?s0"
    unfolding ready_def using peer fresh k a0 by (simp add: s0)
  show ?thesis
  proof (cases "loops s ! k")
    case AwaitWakeLock
    then have hd: "at_head k ?s0" by (simp add: at_head_def p0)
    have l: "length tks = ticks_for ?q" using ticks(1) AwaitWakeLock by (simp add: remaining_ticks_def)
    from drain_queue [OF rd hd l ticks(2), of lib] True AwaitWakeLock show ?thesis
      by (simp add: step_def p0 remaining_def)
  next
    case AwaitPause
    then have hd: "at_head k ?s0" by (simp add: at_head_def p0)
    have l: "length tks = ticks_for ?q" using ticks(1) AwaitPause by (simp add: remaining_ticks_def)
    from drain_queue [OF rd hd l ticks(2), of lib] True AwaitPause show ?thesis
      by (simp add: step_def p0 remaining_def)
  next
    case Finished
    with lf show ?thesis by (simp add: live_frame_def)
  next
    case (AwaitChunk loc)
    let ?n = "totalChunks_of (l_file loc)"
    from lf AwaitChunk have loc: "l_peer loc = h" "l_totalChunks loc = ?n" "l_i loc < ?n"
        "l_id loc \<notin> cancelledIds s"
      by (simp_all add: live_frame_def)
    have sd: "sending k h (l_id loc) (l_file loc) (l_i loc) ?s0"
      unfolding sending_def using k AwaitChunk loc a0 peer(3) by (simp add: p0)
    define ta where "ta = take (?n - l_i loc) tks"
    define tb where "tb = drop (?n - l_i loc) tks"
    have l: "length tks = (?n - l_i loc) + ticks_for ?q"
      using ticks(1) True AwaitChunk loc by (simp add: remaining_ticks_def)
    have ab: "tks = ta @ tb" "length ta = ?n - l_i loc" "length tb = ticks_for ?q"
      unfolding ta_def tb_def using l by simp_all
    have ca: "\<forall>tk\<in>set ta. clean tk" and cb: "\<forall>tk\<in>set tb. clean tk"
      using ticks(2) unfolding ab(1) by simp_all
    let ?s2 = "run lib ?s0 (map (Resume k) ta)"
    from send_chunks [OF sd loc(3) ab(2) ca, of lib]
    have h2: "at_head k ?s2"
      and w2: "p_sent (peers ?s2 ! h) = p_sent (peers ?s0 ! h) @
                 map (\<lambda>j. Chunk (file_chunk (l_file loc) j)) [l_i loc..<?n] @ [Control FileComplete]"
      by (simp_all add: at_head_def)
    note rd2 = send_chunks_ready [OF sd loc(3) ab(2) ca rd, of lib]
    have "run lib s (SendFiles files # map (Resume k) tks) = run lib ?s2 (map (Resume k) tb)"
      unfolding ab(1) by (simp add: run_append step_def)
    with drain_queue [OF rd2 h2 ab(3) cb, of lib] w2 True AwaitChunk loc show ?thesis
      by (simp add: remaining_def p0)
  qed
qed


lemma chunk_facts:
  "int (totalChunks_of f) = \<lceil>real (f_size f) / 65536\<rceil> \<and>
   length (file_chunks f) = totalChunks_of f \<and>
   sum_list (map length (file_chunks f)) = f_size f \<and>
   concat (file_chunks f) = f_bytes f \<and>
   (\<forall>i. Suc i < totalChunks_of f \<longrightarrow> length (file_chunks f ! i) = 65536) \<and>
   (0 < totalChunks_of f \<longrightarrow>
      0 < length (last (file_chunks f)) \<and> length (last (file_chunks f)) \<le> 65536)"
proof -
  have len: "length (file_chunks f) = totalChunks_of f" by (simp add: file_chunks_def)
  have full: "\<forall>i. Suc i < totalChunks_of f \<longrightarrow> length (file_chunks f ! i) = 65536"
    using full_chunk [of _ f] by (simp add: file_chunks_def CHUNK_SIZE_def)
  have lst: "0 < totalChunks_of f \<longrightarrow>
      0 < length (last (file_chunks f)) \<and> length (last (file_chunks f)) \<le> 65536"
  proof
    assume "0 < totalChunks_of f"
    then obtain m where m: "totalChunks_of f = Suc m"
      by (cases "totalChunks_of f") auto
    then have "last (file_chunks f) = file_chunk f m"
      by (simp add: file_chunks_def)
    with last_chunk [OF m]
    show "0 < length (last (file_chunks f)) \<and> length (last (file_chunks f)) \<le> 65536"
      by (simp add: CHUNK_SIZE_def)
  qed
  have sum: "sum_list (map length (file_chunks f)) = f_size f"
    using concat_file_chunks [of f] by (metis f_size_def length_concat)
  show ?thesis using totalChunks_ceiling [of f] len sum concat_file_chunks [of f] full lst by blast
qed


text \<open>
  C1. \<open>sendFiles files\<close> is called with a live peer \<open>h\<close> whose channel is open, on an idle
  engine (the loop \<open>k\<close> is then started by the call) or while the loop \<open>k\<close> is running (in
  the wake lock, in the read of a chunk of the file in flight, or in the pause between two
  files), and the loop is then resumed with clean ticks, with no id of the queue in the
  cancelled set. The peer is then sent, after what it had been sent before and after the
  rest of the file in flight, for every file of the queue in order, those enqueued earlier
  and those of this call: one \<open>file-meta\<close> with \<open>totalChunks = ceil(N / 65536)\<close>, that many
  chunks, and one \<open>file-complete\<close>, and nothing else. The chunks of a file are the file cut
  in order: their sizes sum to \<open>N\<close>, each is 65536 bytes but the last, which has between 1
  and 65536.
\<close>

theorem send_every_file:
  assumes peer: "peerRef s = Some h" "\<not> peer_destroyed h s" "p_open (peers s ! h)"
      and loop: "if isSending s then k < length (loops s) \<and> live_frame h s (loops s ! k)
                 else k = length (loops s)"
      and fresh: "\<forall>e\<in>set (sendQueue s @ enqueued files). fst e \<notin> cancelledIds s"
      and ticks: "length tks = (if isSending s then remaining_ticks (loops s ! k) else 0) +
                               ticks_for (sendQueue s @ enqueued files)"
                 "\<forall>tk\<in>set tks. tk_read_ok tk \<and> tk_buffered tk \<le> HIGH_WATER_MARK"
  shows "p_sent (peers (run lib s (SendFiles files # map (Resume k) tks)) ! h) =
           p_sent (peers s ! h) @ (if isSending s then remaining (loops s ! k) else []) @
           concat (map file_wire (sendQueue s @ enqueued files)) \<and>
         file_wire (tid, f) =
           [Control (FileMeta (Some tid) (f_name f) (f_size f) (totalChunks_of f))] @
           map Chunk (file_chunks f) @ [Control FileComplete] \<and>
         int (totalChunks_of f) = \<lceil>real (f_size f) / 65536\<rceil> \<and>
         length (file_chunks f) = totalChunks_of f \<and>
         sum_list (map length (file_chunks f)) = f_size f \<and>
         concat (file_chunks f) = f_bytes f \<and>
         (\<forall>i. Suc i < totalChunks_of f \<longrightarrow> length (file_chunks f ! i) = 65536) \<and>
         (0 < totalChunks_of f \<longrightarrow>
            0 < length (last (file_chunks f)) \<and> length (last (file_chunks f)) \<le> 65536)"
proof -
  have c: "\<forall>tk\<in>set tks. clean tk" using ticks(2) by (simp add: clean_def)
  have w: "file_wire (tid, f) =
           [Control (FileMeta (Some tid) (f_name f) (f_size f) (totalChunks_of f))] @
           map Chunk (file_chunks f) @ [Control FileComplete]"
    by (simp add: file_wire_def)
  from send_files_wire [OF peer loop fresh ticks(1) c, of lib] w chunk_facts [of f]
  show ?thesis by blast
qed

lemma chunks_96KiB:
  "file_chunks \<lparr>f_name = ''b.bin'', f_bytes = replicate 98304 (CHR 0x00)\<rparr>
   = [replicate 65536 (CHR 0x00), replicate 32768 (CHR 0x00)]"
proof -
  have "totalChunks_of \<lparr>f_name = ''b.bin'', f_bytes = replicate 98304 (CHR 0x00)\<rparr> = 2"
    by (simp add: totalChunks_of_def f_size_def CHUNK_SIZE_def)
  moreover have "[0..<2] = [0, Suc 0]" by (simp add: upt_rec numeral_2_eq_2)
  ultimately show ?thesis
    by (simp add: file_chunks_def file_chunk_def slice_def f_size_def CHUNK_SIZE_def)
qed

lemma chunks_1KiB:
  "file_chunks \<lparr>f_name = ''c.txt'', f_bytes = replicate 1024 (CHR 0x01)\<rparr>
   = [replicate 1024 (CHR 0x01)]"
proof -
  have "totalChunks_of \<lparr>f_name = ''c.txt'', f_bytes = replicate 1024 (CHR 0x01)\<rparr> = 1"
    by (simp add: totalChunks_of_def f_size_def CHUNK_SIZE_def)
  then show ?thesis
    by (simp add: file_chunks_def file_chunk_def slice_def f_size_def CHUNK_SIZE_def)
qed

theorem send_every_file_witness:
  "p_sent (peers (run ref_lib
            ((initial True)\<lparr>peers := [(new_peer True)\<lparr>p_open := True\<rparr>], peerRef := Some 0,
                             connectionState := CS_connected\<rparr>)
            (SendFiles [(''A'', 0, \<lparr>f_name = ''b.bin'', f_bytes = replicate 98304 (CHR 0x00)\<rparr>),
                        (''B'', 1, \<lparr>f_name = ''c.txt'', f_bytes = replicate 1024 (CHR 0x01)\<rparr>)] #
             map (Resume 0)
               [\<lparr>tk_now = 10, tk_buffered = 0, tk_read_ok = True\<rparr>,
                \<lparr>tk_now = 20, tk_buffered = 0, tk_read_ok = True\<rparr>,
                \<lparr>tk_now = 30, tk_buffered = 0, tk_read_ok = True\<rparr>,
                \<lparr>tk_now = 240, tk_buffered = 0, tk_read_ok = True\<rparr>,
                \<lparr>tk_now = 250, tk_buffered = 0, tk_read_ok = True\<rparr>])) ! 0)
   = [Control (FileMeta (Some ''A'') ''b.bin'' 98304 2),
      Chunk (replicate 65536 (CHR 0x00)), Chunk (replicate 32768 (CHR 0x00)),
      Control FileComplete,
      Control (FileMeta (Some ''B'') ''c.txt'' 1024 1),
      Chunk (replicate 1024 (CHR 0x01)),
      Control FileComplete] \<and>
   p_sent (peers (run ref_lib
            (run ref_lib
               ((initial True)\<lparr>peers := [(new_peer True)\<lparr>p_open := True\<rparr>], peerRef := Some 0,
                                connectionState := CS_connected\<rparr>)
               [SendFiles [(''A'', 0, \<lparr>f_name = ''b.bin'', f_bytes = replicate 98304 (CHR 0x00)\<rparr>)],
                Resume 0 \<lparr>tk_now = 10, tk_buffered = 0, tk_read_ok = True\<rparr>,
                Resume 0 \<lparr>tk_now = 20, tk_buffered = 0, tk_read_ok = True\<rparr>])
            (SendFiles [(''B'', 25, \<lparr>f_name = ''c.txt'', f_bytes = replicate 1024 (CHR 0x01)\<rparr>)] #
             map (Resume 0)
               [\<lparr>tk_now = 30, tk_buffered = 0, tk_read_ok = True\<rparr>,
                \<lparr>tk_now = 240, tk_buffered = 0, tk_read_ok = True\<rparr>,
                \<lparr>tk_now = 250, tk_buffered = 0, tk_read_ok = True\<rparr>])) ! 0)
   = [Control (FileMeta (Some ''A'') ''b.bin'' 98304 2),
      Chunk (replicate 65536 (CHR 0x00)), Chunk (replicate 32768 (CHR 0x00)),
      Control FileComplete,
      Control (FileMeta (Some ''B'') ''c.txt'' 1024 1),
      Chunk (replicate 1024 (CHR 0x01)),
      Control FileComplete]"
proof -
  define fa where "fa = \<lparr>f_name = ''b.bin'', f_bytes = replicate 98304 (CHR 0x00)\<rparr>"
  define fb where "fb = \<lparr>f_name = ''c.txt'', f_bytes = replicate 1024 (CHR 0x01)\<rparr>"
  define s0 where "s0 = (initial True)\<lparr>peers := [(new_peer True)\<lparr>p_open := True\<rparr>],
                           peerRef := Some 0, connectionState := CS_connected\<rparr>"
  define s1 where "s1 = run ref_lib s0
               [SendFiles [(''A'', 0, fa)],
                Resume 0 \<lparr>tk_now = 10, tk_buffered = 0, tk_read_ok = True\<rparr>,
                Resume 0 \<lparr>tk_now = 20, tk_buffered = 0, tk_read_ok = True\<rparr>]"
  define t5 where "t5 = [\<lparr>tk_now = 10, tk_buffered = 0, tk_read_ok = True\<rparr>,
                \<lparr>tk_now = 20, tk_buffered = 0, tk_read_ok = True\<rparr>,
                \<lparr>tk_now = 30, tk_buffered = 0, tk_read_ok = True\<rparr>,
                \<lparr>tk_now = 240, tk_buffered = 0, tk_read_ok = True\<rparr>,
                \<lparr>tk_now = 250, tk_buffered = 0, tk_read_ok = True\<rparr>]"
  define t3 where "t3 = [\<lparr>tk_now = 30, tk_buffered = 0, tk_read_ok = True\<rparr>,
                \<lparr>tk_now = 240, tk_buffered = 0, tk_read_ok = True\<rparr>,
                \<lparr>tk_now = 250, tk_buffered = 0, tk_read_ok = True\<rparr>]"
  have na: "totalChunks_of fa = 2" and nb: "totalChunks_of fb = 1"
    by (simp_all add: fa_def fb_def totalChunks_of_def f_size_def CHUNK_SIZE_def)
  have wa: "file_wire (''A'', fa) =
      [Control (FileMeta (Some ''A'') ''b.bin'' 98304 2),
       Chunk (replicate 65536 (CHR 0x00)), Chunk (replicate 32768 (CHR 0x00)),
       Control FileComplete]"
    unfolding file_wire_def using chunks_96KiB na by (simp add: fa_def f_size_def)
  have wb: "file_wire (''B'', fb) =
      [Control (FileMeta (Some ''B'') ''c.txt'' 1024 1),
       Chunk (replicate 1024 (CHR 0x01)), Control FileComplete]"
    unfolding file_wire_def using chunks_1KiB nb by (simp add: fb_def f_size_def)
  have p0: "peerRef s0 = Some 0" "\<not> peer_destroyed 0 s0" "p_open (peers s0 ! 0)"
      "\<not> isSending s0" "sendQueue s0 = []" "cancelledIds s0 = {}" "loops s0 = []"
      "p_sent (peers s0 ! 0) = []"
    by (simp_all add: s0_def initial_def new_peer_def peer_destroyed_def)
  have l0: "if isSending s0 then 0 < length (loops s0) \<and> live_frame 0 s0 (loops s0 ! 0)
            else 0 = length (loops s0)"
    by (simp add: p0)
  have f0: "\<forall>e\<in>set (sendQueue s0 @ enqueued [(''A'', 0, fa), (''B'', 1, fb)]). fst e \<notin> cancelledIds s0"
    by (simp add: p0)
  have k0: "length t5 = (if isSending s0 then remaining_ticks (loops s0 ! 0) else 0) +
                        ticks_for (sendQueue s0 @ enqueued [(''A'', 0, fa), (''B'', 1, fb)])"
    by (simp add: p0 enqueued_def na nb t5_def)
  have c5: "\<forall>tk\<in>set t5. tk_read_ok tk \<and> tk_buffered tk \<le> HIGH_WATER_MARK"
    by (simp add: t5_def)
  from send_every_file [OF p0(1-3) l0 f0 k0 c5, of ref_lib]
  have batch: "p_sent (peers (run ref_lib s0
        (SendFiles [(''A'', 0, fa), (''B'', 1, fb)] # map (Resume 0) t5)) ! 0) =
      [Control (FileMeta (Some ''A'') ''b.bin'' 98304 2),
       Chunk (replicate 65536 (CHR 0x00)), Chunk (replicate 32768 (CHR 0x00)),
       Control FileComplete,
       Control (FileMeta (Some ''B'') ''c.txt'' 1024 1),
       Chunk (replicate 1024 (CHR 0x01)),
       Control FileComplete]"
    by (simp add: p0 enqueued_def wa wb)
  have sd: "sending 0 0 ''A'' fa (Suc 0) s1"
    unfolding s1_def s0_def by (simp add: sending_def na hook_defs) (simp add: fa_def)
  have p1: "peerRef s1 = Some 0" "isSending s1" "sendQueue s1 = []" "cancelledIds s1 = {}"
      "p_sent (peers s1 ! 0) =
         [Control (FileMeta (Some ''A'') ''b.bin'' 98304 2), Chunk (replicate 65536 (CHR 0x00))]"
    unfolding s1_def s0_def by (simp_all add: hook_defs fa_def)
  from sd obtain loc where fr: "loops s1 ! 0 = AwaitChunk loc" and k1: "0 < length (loops s1)"
    and loc: "l_peer loc = 0" "l_id loc = ''A''" "l_file loc = fa" "l_totalChunks loc = 2"
      "l_i loc = Suc 0"
    and a1: "\<not> peer_destroyed 0 s1" "p_open (peers s1 ! 0)"
    by (auto simp: sending_def na split: frame.splits)
  have c1: "file_chunk fa (Suc 0) = replicate 32768 (CHR 0x00)"
    by (simp add: fa_def file_chunk_def slice_def f_size_def CHUNK_SIZE_def)
  have rem: "remaining (loops s1 ! 0) = [Chunk (replicate 32768 (CHR 0x00)), Control FileComplete]"
      "remaining_ticks (loops s1 ! 0) = 1"
    unfolding fr by (simp_all add: remaining_def remaining_ticks_def loc c1 upt_rec numeral_2_eq_2)
  have l1: "if isSending s1 then 0 < length (loops s1) \<and> live_frame 0 s1 (loops s1 ! 0)
            else 0 = length (loops s1)"
    using k1 by (simp add: p1 fr live_frame_def loc na)
  have f1: "\<forall>e\<in>set (sendQueue s1 @ enqueued [(''B'', 25, fb)]). fst e \<notin> cancelledIds s1"
    by (simp add: p1)
  have kk: "length t3 = (if isSending s1 then remaining_ticks (loops s1 ! 0) else 0) +
                        ticks_for (sendQueue s1 @ enqueued [(''B'', 25, fb)])"
    by (simp add: p1 enqueued_def nb t3_def rem)
  have c3: "\<forall>tk\<in>set t3. tk_read_ok tk \<and> tk_buffered tk \<le> HIGH_WATER_MARK"
    by (simp add: t3_def)
  from send_every_file [OF p1(1) a1 l1 f1 kk c3, of ref_lib]
  have flight: "p_sent (peers (run ref_lib s1
        (SendFiles [(''B'', 25, fb)] # map (Resume 0) t3)) ! 0) =
      [Control (FileMeta (Some ''A'') ''b.bin'' 98304 2),
       Chunk (replicate 65536 (CHR 0x00)), Chunk (replicate 32768 (CHR 0x00)),
       Control FileComplete,
       Control (FileMeta (Some ''B'') ''c.txt'' 1024 1),
       Chunk (replicate 1024 (CHR 0x01)),
       Control FileComplete]"
    by (simp add: p1 enqueued_def rem wb)
  show ?thesis
    using batch flight unfolding s1_def s0_def t5_def t3_def fa_def fb_def by blast
qed


subsection \<open>Cancelling the file in flight\<close>

lemma status_of_Nil [simp]: "status_of tid [] = None"
  by (simp add: status_of_def)

lemma status_of_Cons [simp]:
  "status_of tid (t # ts) = (if t_id t = tid then Some (t_status t) else status_of tid ts)"
  by (simp add: status_of_def)

lemma status_of_cong:
  "map t_id ts' = map t_id ts \<Longrightarrow> map t_status ts' = map t_status ts \<Longrightarrow>
   status_of tid ts' = status_of tid ts"
proof (induction ts arbitrary: ts')
  case Nil
  then show ?case by simp
next
  case (Cons a ts)
  then obtain b ts'' where b: "ts' = b # ts''" by (cases ts') auto
  with Cons.prems have "t_id b = t_id a" "t_status b = t_status a"
    "map t_id ts'' = map t_id ts" "map t_status ts'' = map t_status ts"
    by simp_all
  with Cons.IH [of ts''] show ?case unfolding b by simp
qed

lemma status_of_cancel:
  "status_of tid ts = Some TS_transferring \<Longrightarrow>
   status_of tid (map (\<lambda>t. if t_id t = tid \<and> (t_status t = TS_queued \<or> t_status t = TS_transferring)
                            then mark_cancelled t else t) ts) = Some TS_cancelled"
  by (induction ts) (simp_all add: mark_cancelled_def split: if_splits)

lemma status_of_mark_cancelled:
  "status_of tid ts = Some st \<Longrightarrow>
   status_of tid (map (\<lambda>t. if t_id t = tid then mark_cancelled t else t) ts) = Some TS_cancelled"
  by (induction ts) (simp_all add: mark_cancelled_def split: if_splits)

lemma cancel_transferring:
  assumes st: "status_of tid (transfers s) = Some TS_transferring"
      and p: "peerRef s = Some h" and alive: "\<not> peer_destroyed h s" "p_open (peers s ! h)"
  shows "cancelTransfer tid s =
           (update_peer h (\<lambda>p. p\<lparr>p_sent := p_sent p @ [Control (FileCancel (Some tid))]\<rparr>)
              (s\<lparr>cancelledIds := insert tid (cancelledIds s)\<rparr>))
           \<lparr>sendQueue := filter (\<lambda>e. fst e \<noteq> tid) (sendQueue s),
            transfers := map (\<lambda>t. if t_id t = tid \<and> (t_status t = TS_queued \<or> t_status t = TS_transferring)
                                   then mark_cancelled t else t) (transfers s)\<rparr>"
proof -
  let ?s1 = "s\<lparr>cancelledIds := insert tid (cancelledIds s)\<rparr>"
  have a1: "\<not> peer_destroyed h ?s1" "p_open (peers ?s1 ! h)"
    using alive peer_destroyed_cong [of ?s1 s h] by simp_all
  from st obtain tr where "find (\<lambda>t. t_id t = tid) (transfers s) = Some tr"
      "t_status tr = TS_transferring"
    by (auto simp: status_of_def)
  then show ?thesis
    using p a1(1) peer_send_ok [OF a1]
    by (simp add: cancelTransfer_def Let_def update_peer_def)
qed

lemma cancel_in_flight_steps:
  assumes sd: "sending k h tid file i s" and i: "i < totalChunks_of file"
      and p: "peerRef s = Some h"
      and st: "status_of tid (transfers s) = Some TS_transferring"
      and c: "clean tk"
  shows "p_sent (peers (cancelTransfer tid s) ! h) =
           p_sent (peers s ! h) @ [Control (FileCancel (Some tid))] \<and>
         p_sent (peers (resume k tk (cancelTransfer tid s)) ! h) =
           p_sent (peers (cancelTransfer tid s) ! h) @ [Chunk (file_chunk file i)] @
           (if Suc i < totalChunks_of file then [Control (FileCancel None)] else []) \<and>
         loops (resume k tk (cancelTransfer tid s)) ! k = AwaitPause \<and>
         tid \<notin> fst ` set (sendQueue (resume k tk (cancelTransfer tid s))) \<and>
         status_of tid (transfers (resume k tk (cancelTransfer tid s))) = Some TS_cancelled"
proof -
  from sd obtain loc where k: "k < length (loops s)" and fr: "loops s ! k = AwaitChunk loc"
    and loc: "l_peer loc = h" "l_id loc = tid" "l_file loc = file"
      "l_totalChunks loc = totalChunks_of file" "l_i loc = i"
    and alive: "\<not> peer_destroyed h s" "p_open (peers s ! h)"
    by (auto simp: sending_def split: frame.splits)
  have h: "h < length (peers s)" using alive(1) by (rule alive_in_store)
  let ?g = "\<lambda>t. if t_id t = tid \<and> (t_status t = TS_queued \<or> t_status t = TS_transferring)
                 then mark_cancelled t else t"
  let ?c = "cancelTransfer tid s"
  note ct = cancel_transferring [OF st p alive]
  have c1: "peers ?c = peers (update_peer h (\<lambda>p. p\<lparr>p_sent := p_sent p @ [Control (FileCancel (Some tid))]\<rparr>) s)"
    "loops ?c = loops s" "cancelledIds ?c = insert tid (cancelledIds s)"
    "sendQueue ?c = filter (\<lambda>e. fst e \<noteq> tid) (sendQueue s)"
    "transfers ?c = map ?g (transfers s)"
    unfolding ct by (simp_all add: update_peer_def)
  have w1: "p_sent (peers ?c ! h) = p_sent (peers s ! h) @ [Control (FileCancel (Some tid))]"
    unfolding c1 using h by simp
  have a1: "\<not> peer_destroyed h ?c" "p_open (peers ?c ! h)"
    using alive h unfolding c1(1) peer_destroyed_def by (simp_all add: update_peer_def)
  have f1: "status_of tid (transfers ?c) = Some TS_cancelled"
    unfolding c1(5) using st by (rule status_of_cancel)
  define s2 where "s2 = chunk_sent tk loc ?c"
  define loc' where "loc' = next_locals tk loc"
  have ar: "after_read tk k loc ?c = for_head (tk_now tk) k loc' s2"
    unfolding s2_def loc'_def using after_read_clean [OF c, of loc ?c k] a1 loc by simp
  have loc': "l_peer loc' = h" "l_id loc' = tid" "l_file loc' = file"
      "l_totalChunks loc' = totalChunks_of file" "l_i loc' = Suc i"
    unfolding loc'_def using loc by simp_all
  have s2: "peers s2 = peers (update_peer h (\<lambda>p. p\<lparr>p_sent := p_sent p @ [Chunk (file_chunk file i)]\<rparr>) ?c)"
      "loops s2 = loops ?c" "cancelledIds s2 = cancelledIds ?c" "sendQueue s2 = sendQueue ?c"
    unfolding s2_def using loc by simp_all
  have g: "map t_id (transfers s2) = map t_id (transfers ?c)"
      "map t_status (transfers s2) = map t_status (transfers ?c)"
    unfolding s2_def by simp_all
  have r: "resume k tk ?c = for_head (tk_now tk) k loc' s2"
    using k fr ar c1(2) by (simp add: resume_def)
  have h2: "h < length (peers ?c)" using h c1(1) by simp
  have w2: "p_sent (peers s2 ! h) = p_sent (peers ?c ! h) @ [Chunk (file_chunk file i)]"
    unfolding s2(1) using h2 by simp
  have a2: "\<not> peer_destroyed h s2" "p_open (peers s2 ! h)"
    using a1 h2 unfolding s2(1) peer_destroyed_def by (simp_all add: update_peer_def)
  have in2: "tid \<in> cancelledIds s2" unfolding s2(3) c1(3) by simp
  have q2: "tid \<notin> fst ` set (sendQueue s2)" unfolding s2(4) c1(4) by auto
  have f2: "status_of tid (transfers s2) = Some TS_cancelled"
    using status_of_cong [OF g] f1 by simp
  show ?thesis
  proof (cases "Suc i < totalChunks_of file")
    case True
    let ?s3 = "update_transfer tid mark_cancelled
                 ((update_peer h (\<lambda>p. p\<lparr>p_sent := p_sent p @ [Control (FileCancel None)]\<rparr>) s2)
                    \<lparr>cancelledIds := cancelledIds s2 - {tid}\<rparr>)"
    have fh: "for_head (tk_now tk) k loc' s2 = suspend k AwaitPause ?s3"
      using True loc' in2 peer_send_ok [OF a2]
      by (simp add: for_head_def after_for_def update_peer_def)
    have p3: "peers ?s3 = peers (update_peer h (\<lambda>p. p\<lparr>p_sent := p_sent p @ [Control (FileCancel None)]\<rparr>) s2)"
      "sendQueue ?s3 = sendQueue s2" "loops ?s3 = loops s2"
      "transfers ?s3 = map (\<lambda>t. if t_id t = tid then mark_cancelled t else t) (transfers s2)"
      by (simp_all add: update_peer_def update_transfer_def)
    have h3: "h < length (peers s2)" using a2(1) by (rule alive_in_store)
    have f3: "status_of tid (transfers ?s3) = Some TS_cancelled"
      unfolding p3(4) using f2 by (rule status_of_mark_cancelled)
    show ?thesis
      unfolding r fh using True w1 w2 p3(1,2,3) h3 q2 f3 k c1(2) s2(2)
      by (simp add: suspend_def)
  next
    case False
    have fh: "for_head (tk_now tk) k loc' s2 = suspend k AwaitPause s2"
      using False loc' in2 by (simp add: for_head_def after_for_def)
    show ?thesis
      unfolding r fh using False w1 w2 q2 f2 k c1(2) s2(2)
      by (simp add: suspend_def)
  qed
qed


text \<open>
  C4, as stated, fails: with a further chunk still to send, two \<open>file-cancel\<close> messages
  go out, the first from \<open>cancelTransfer\<close> with the id, the second from the send loop
  without one.
\<close>

theorem cancel_in_flight_counterexample:
  "p_sent (peers (run ref_lib
            ((initial True)\<lparr>peers := [(new_peer True)\<lparr>p_open := True\<rparr>], peerRef := Some 0,
                             connectionState := CS_connected\<rparr>)
            [SendFiles [(''A'', 0, \<lparr>f_name = ''a.bin'', f_bytes = replicate 196608 (CHR 0x00)\<rparr>)],
             Resume 0 \<lparr>tk_now = 10, tk_buffered = 0, tk_read_ok = True\<rparr>,
             Resume 0 \<lparr>tk_now = 20, tk_buffered = 0, tk_read_ok = True\<rparr>,
             CancelTransfer ''A'',
             Resume 0 \<lparr>tk_now = 30, tk_buffered = 0, tk_read_ok = True\<rparr>]) ! 0)
   = [Control (FileMeta (Some ''A'') ''a.bin'' 196608 3),
      Chunk (replicate 65536 (CHR 0x00)),
      Control (FileCancel (Some ''A'')),
      Chunk (replicate 65536 (CHR 0x00)),
      Control (FileCancel None)]"
  by (simp add: hook_defs)


text \<open>
  C4, amended. When a send-direction transfer \<open>tid\<close> is cancelled with \<open>cancelTransfer\<close>
  while its status is \<open>transferring\<close> and the loop is suspended in the read of chunk \<open>i\<close>,
  \<open>cancelTransfer\<close> emits one \<open>file-cancel\<close> carrying \<open>id = tid\<close>. At its next clean resumption
  the loop sends the chunk it was reading and, if a further chunk remains, a second
  \<open>file-cancel\<close> without an id; it sends no further chunk and no \<open>file-complete\<close> for
  \<open>tid\<close> and goes to the pause between files. \<open>tid\<close> is not in the queue, and its status
  is \<open>cancelled\<close>.
\<close>

theorem cancel_in_flight:
  assumes "sending k h tid file i s" and "i < totalChunks_of file"
      and "peerRef s = Some h"
      and "status_of tid (transfers s) = Some TS_transferring"
      and "tk_read_ok tk \<and> tk_buffered tk \<le> HIGH_WATER_MARK"
  shows "p_sent (peers (cancelTransfer tid s) ! h) =
           p_sent (peers s ! h) @ [Control (FileCancel (Some tid))] \<and>
         p_sent (peers (resume k tk (cancelTransfer tid s)) ! h) =
           p_sent (peers (cancelTransfer tid s) ! h) @ [Chunk (file_chunk file i)] @
           (if Suc i < totalChunks_of file then [Control (FileCancel None)] else []) \<and>
         loops (resume k tk (cancelTransfer tid s)) ! k = AwaitPause \<and>
         tid \<notin> fst ` set (sendQueue (resume k tk (cancelTransfer tid s))) \<and>
         status_of tid (transfers (resume k tk (cancelTransfer tid s))) = Some TS_cancelled"
  using assms cancel_in_flight_steps [of k h tid "file" i s tk] by (simp add: clean_def)

theorem cancel_in_flight_witness:
  "p_sent (peers (resume 0 \<lparr>tk_now = 30, tk_buffered = 0, tk_read_ok = True\<rparr>
       (cancelTransfer ''A''
          (run ref_lib
             ((initial True)\<lparr>peers := [(new_peer True)\<lparr>p_open := True\<rparr>], peerRef := Some 0,
                              connectionState := CS_connected\<rparr>)
             [SendFiles [(''A'', 0, \<lparr>f_name = ''a.bin'', f_bytes = replicate 196608 (CHR 0x00)\<rparr>)],
              Resume 0 \<lparr>tk_now = 10, tk_buffered = 0, tk_read_ok = True\<rparr>,
              Resume 0 \<lparr>tk_now = 20, tk_buffered = 0, tk_read_ok = True\<rparr>]))) ! 0)
   = [Control (FileMeta (Some ''A'') ''a.bin'' 196608 3),
      Chunk (replicate 65536 (CHR 0x00)),
      Control (FileCancel (Some ''A'')),
      Chunk (replicate 65536 (CHR 0x00)),
      Control (FileCancel None)] \<and>
   status_of ''A'' (transfers (resume 0 \<lparr>tk_now = 30, tk_buffered = 0, tk_read_ok = True\<rparr>
       (cancelTransfer ''A''
          (run ref_lib
             ((initial True)\<lparr>peers := [(new_peer True)\<lparr>p_open := True\<rparr>], peerRef := Some 0,
                              connectionState := CS_connected\<rparr>)
             [SendFiles [(''A'', 0, \<lparr>f_name = ''a.bin'', f_bytes = replicate 196608 (CHR 0x00)\<rparr>)],
              Resume 0 \<lparr>tk_now = 10, tk_buffered = 0, tk_read_ok = True\<rparr>,
              Resume 0 \<lparr>tk_now = 20, tk_buffered = 0, tk_read_ok = True\<rparr>]))))
   = Some TS_cancelled"
proof -
  define f where "f = \<lparr>f_name = ''a.bin'', f_bytes = replicate 196608 (CHR 0x00)\<rparr>"
  define s where "s = run ref_lib
             ((initial True)\<lparr>peers := [(new_peer True)\<lparr>p_open := True\<rparr>], peerRef := Some 0,
                              connectionState := CS_connected\<rparr>)
             [SendFiles [(''A'', 0, f)],
              Resume 0 \<lparr>tk_now = 10, tk_buffered = 0, tk_read_ok = True\<rparr>,
              Resume 0 \<lparr>tk_now = 20, tk_buffered = 0, tk_read_ok = True\<rparr>]"
  define tk where "tk = \<lparr>tk_now = 30, tk_buffered = 0, tk_read_ok = True\<rparr>"
  have n: "totalChunks_of f = 3"
    by (simp add: f_def totalChunks_of_def f_size_def CHUNK_SIZE_def)
  have sd: "sending 0 0 ''A'' f (Suc 0) s"
    unfolding s_def by (simp add: sending_def n hook_defs) (simp add: f_def)
  have i: "Suc 0 < totalChunks_of f" by (simp add: n)
  have p: "peerRef s = Some 0" unfolding s_def by (simp add: hook_defs f_def)
  have st: "status_of ''A'' (transfers s) = Some TS_transferring"
    unfolding s_def by (simp add: hook_defs f_def)
  have tk: "tk_read_ok tk \<and> tk_buffered tk \<le> HIGH_WATER_MARK" by (simp add: tk_def)
  have w: "p_sent (peers s ! 0) =
      [Control (FileMeta (Some ''A'') ''a.bin'' 196608 3), Chunk (replicate 65536 (CHR 0x00))]"
    unfolding s_def by (simp add: hook_defs f_def)
  have c: "file_chunk f (Suc 0) = replicate 65536 (CHR 0x00)"
    by (simp add: f_def file_chunk_def slice_def f_size_def CHUNK_SIZE_def)
  from cancel_in_flight [OF sd i p st tk]
  have "p_sent (peers (resume 0 tk (cancelTransfer ''A'' s)) ! 0)
      = [Control (FileMeta (Some ''A'') ''a.bin'' 196608 3),
         Chunk (replicate 65536 (CHR 0x00)),
         Control (FileCancel (Some ''A'')),
         Chunk (replicate 65536 (CHR 0x00)),
         Control (FileCancel None)] \<and>
       status_of ''A'' (transfers (resume 0 tk (cancelTransfer ''A'' s))) = Some TS_cancelled"
    by (simp add: w c n)
  then show ?thesis unfolding s_def tk_def f_def .
qed


section \<open>An invariant of the transfer list\<close>

subsection \<open>The ids and who holds them\<close>

text \<open>
  An id is held by a send loop while the loop is suspended in the read of a chunk of its
  file (\<open>fid\<close>, \<open>fids\<close>), by the incoming assembly (\<open>iids\<close>), or by an entry of the queue
  (\<open>qids\<close>); \<open>used_ids\<close> are these and the ids of the records of the list.
  \<open>full_when_completed\<close> is the property of the list; \<open>open_ids A\<close> says that no record with
  an id of \<open>A\<close> is completed, and \<open>one_holder\<close> that no two loops hold the same id. The
  invariant \<open>hook_inv\<close> is: completed records are full, the records of the ids held by a loop
  or by the assembly are not completed, the ids of the queue are distinct, and loops,
  queue and assembly hold different ids. \<open>holding k a\<close> is the invariant inside a
  resumption of the loop \<open>k\<close>, which has the id \<open>a\<close> in hand.
\<close>

definition fid :: "frame \<Rightarrow> string set" where
  "fid fr = (case fr of AwaitChunk loc \<Rightarrow> {l_id loc} | _ \<Rightarrow> {})"

definition fids :: "frame list \<Rightarrow> string set" where
  "fids ls = (\<Union>fr\<in>set ls. fid fr)"

definition iids :: "Incoming option \<Rightarrow> string set" where
  "iids inc = (case inc of None \<Rightarrow> {} | Some i \<Rightarrow> {i_id i})"

definition qids :: "(string \<times> File) list \<Rightarrow> string set" where
  "qids q = fst ` set q"

definition used_ids :: "state \<Rightarrow> string set" where
  "used_ids s =
     t_id ` set (transfers s) \<union> qids (sendQueue s) \<union> fids (loops s) \<union> iids (incoming s)"

definition full_when_completed :: "FileTransfer list \<Rightarrow> bool" where
  "full_when_completed ts = (\<forall>t\<in>set ts. t_status t = TS_completed \<longrightarrow> t_progress t = Pct 100)"

definition open_ids :: "string set \<Rightarrow> FileTransfer list \<Rightarrow> bool" where
  "open_ids A ts = (\<forall>t\<in>set ts. t_id t \<in> A \<longrightarrow> t_status t \<noteq> TS_completed)"

definition one_holder :: "frame list \<Rightarrow> bool" where
  "one_holder ls =
     (\<forall>i<length ls. \<forall>j<length ls. \<forall>a. a \<in> fid (ls ! i) \<longrightarrow> a \<in> fid (ls ! j) \<longrightarrow> i = j)"

definition inv4 ::
  "FileTransfer list \<Rightarrow> (string \<times> File) list \<Rightarrow> frame list \<Rightarrow> Incoming option \<Rightarrow> bool" where
  "inv4 ts q ls inc =
     (full_when_completed ts \<and> open_ids (fids ls \<union> iids inc) ts \<and> distinct (map fst q) \<and>
      one_holder ls \<and> fids ls \<inter> qids q = {} \<and> fids ls \<inter> iids inc = {} \<and> qids q \<inter> iids inc = {})"

definition hook_inv :: "state \<Rightarrow> bool" where
  "hook_inv s = inv4 (transfers s) (sendQueue s) (loops s) (incoming s)"

definition holding4 ::
  "nat \<Rightarrow> string \<Rightarrow> FileTransfer list \<Rightarrow> (string \<times> File) list \<Rightarrow> frame list \<Rightarrow> Incoming option \<Rightarrow> bool" where
  "holding4 k a ts q ls inc =
     (inv4 ts q (ls[k := AwaitPause]) inc \<and> k < length ls \<and> a \<notin> fids (ls[k := AwaitPause]) \<and>
      a \<notin> qids q \<and> a \<notin> iids inc \<and> open_ids {a} ts)"

definition holding :: "nat \<Rightarrow> string \<Rightarrow> state \<Rightarrow> bool" where
  "holding k a s = holding4 k a (transfers s) (sendQueue s) (loops s) (incoming s)"

lemma fid_simps [simp]:
  "fid AwaitWakeLock = {}" "fid AwaitPause = {}" "fid Finished = {}" "fid (AwaitChunk loc) = {l_id loc}"
  by (simp_all add: fid_def)

lemma fids_nth: "a \<in> fids ls \<longleftrightarrow> (\<exists>i<length ls. a \<in> fid (ls ! i))"
proof
  assume "a \<in> fids ls"
  then obtain fr where "fr \<in> set ls" "a \<in> fid fr" by (auto simp: fids_def)
  then show "\<exists>i<length ls. a \<in> fid (ls ! i)" by (metis in_set_conv_nth)
next
  assume "\<exists>i<length ls. a \<in> fid (ls ! i)"
  then obtain i where "i < length ls" "a \<in> fid (ls ! i)" by blast
  then show "a \<in> fids ls" unfolding fids_def using nth_mem by blast
qed

lemma fids_update_mem:
  assumes "k < length ls"
  shows "a \<in> fids (ls[k := fr]) \<longleftrightarrow> a \<in> fid fr \<or> (\<exists>j<length ls. j \<noteq> k \<and> a \<in> fid (ls ! j))"
proof
  assume "a \<in> fids (ls[k := fr])"
  then obtain i where i: "i < length ls" "a \<in> fid (ls[k := fr] ! i)" unfolding fids_nth by auto
  show "a \<in> fid fr \<or> (\<exists>j<length ls. j \<noteq> k \<and> a \<in> fid (ls ! j))"
  proof (cases "i = k")
    case True
    with i assms show ?thesis by simp
  next
    case False
    with i have "a \<in> fid (ls ! i)" by simp
    with i False show ?thesis by blast
  qed
next
  assume "a \<in> fid fr \<or> (\<exists>j<length ls. j \<noteq> k \<and> a \<in> fid (ls ! j))"
  then show "a \<in> fids (ls[k := fr])"
  proof
    assume "a \<in> fid fr"
    with assms have "k < length (ls[k := fr]) \<and> a \<in> fid (ls[k := fr] ! k)" by simp
    then show ?thesis unfolding fids_nth by blast
  next
    assume "\<exists>j<length ls. j \<noteq> k \<and> a \<in> fid (ls ! j)"
    then obtain j where "j < length ls" "j \<noteq> k" "a \<in> fid (ls ! j)" by blast
    then have "j < length (ls[k := fr]) \<and> a \<in> fid (ls[k := fr] ! j)" by simp
    then show ?thesis unfolding fids_nth by blast
  qed
qed

lemma fids_update: "k < length ls \<Longrightarrow> fids (ls[k := fr]) = fid fr \<union> fids (ls[k := AwaitPause])"
  by (rule set_eqI) (simp add: fids_update_mem)

lemma fids_update_idle:
  assumes "k < length ls" and "fid (ls ! k) = {}" and "fid fr = {}"
  shows "fids (ls[k := fr]) = fids ls"
proof (rule set_eqI)
  fix a
  have "a \<in> fids ls \<longleftrightarrow> (\<exists>j<length ls. j \<noteq> k \<and> a \<in> fid (ls ! j))"
    unfolding fids_nth using assms(2) by (metis empty_iff)
  then show "a \<in> fids (ls[k := fr]) \<longleftrightarrow> a \<in> fids ls"
    by (simp add: fids_update_mem assms)
qed

lemma one_holder_update:
  assumes oh: "one_holder ls" and k: "k < length ls"
      and new: "\<forall>a\<in>fid fr. \<forall>j<length ls. j \<noteq> k \<longrightarrow> a \<notin> fid (ls ! j)"
  shows "one_holder (ls[k := fr])"
  unfolding one_holder_def
proof (intro allI impI)
  fix i j a
  assume i: "i < length (ls[k := fr])" and j: "j < length (ls[k := fr])"
    and ai: "a \<in> fid (ls[k := fr] ! i)" and aj: "a \<in> fid (ls[k := fr] ! j)"
  show "i = j"
  proof (cases "i = k")
    case True
    show ?thesis
    proof (cases "j = k")
      case True
      with \<open>i = k\<close> show ?thesis by simp
    next
      case False
      from ai \<open>i = k\<close> k have "a \<in> fid fr" by simp
      moreover from aj False have "a \<in> fid (ls ! j)" by simp
      ultimately show ?thesis using new j False by auto
    qed
  next
    case False
    then have ai': "a \<in> fid (ls ! i)" using ai by simp
    show ?thesis
    proof (cases "j = k")
      case True
      from aj True k have "a \<in> fid fr" by simp
      with ai' new i False show ?thesis by auto
    next
      case False
      then have "a \<in> fid (ls ! j)" using aj by simp
      with ai' oh i j show ?thesis unfolding one_holder_def by auto
    qed
  qed
qed

lemma one_holder_clear:
  assumes "one_holder ls" and "fid fr = {}"
  shows "one_holder (ls[k := fr])"
proof (cases "k < length ls")
  case True
  with assms show ?thesis by (intro one_holder_update) simp_all
next
  case False
  with assms(1) show ?thesis by (simp add: list_update_beyond)
qed

lemma one_holder_set:
  assumes "one_holder (ls[k := AwaitPause])" and "k < length ls" and "fid fr \<inter> fids (ls[k := AwaitPause]) = {}"
  shows "one_holder (ls[k := fr])"
proof -
  have "\<forall>a\<in>fid fr. \<forall>j<length (ls[k := AwaitPause]). j \<noteq> k \<longrightarrow> a \<notin> fid (ls[k := AwaitPause] ! j)"
  proof (intro ballI allI impI)
    fix a j assume a: "a \<in> fid fr" and j: "j < length (ls[k := AwaitPause])" "j \<noteq> k"
    from a assms(3) have "a \<notin> fids (ls[k := AwaitPause])" by blast
    with j show "a \<notin> fid (ls[k := AwaitPause] ! j)" unfolding fids_nth by blast
  qed
  from one_holder_update [OF assms(1) _ this] assms(2) show ?thesis by simp
qed

lemma open_ids_Un: "open_ids (A \<union> B) ts \<longleftrightarrow> open_ids A ts \<and> open_ids B ts"
  unfolding open_ids_def by blast

lemma open_ids_empty [simp]: "open_ids {} ts"
  unfolding open_ids_def by simp

lemma full_map:
  assumes "full_when_completed ts"
      and "\<And>t. t \<in> set ts \<Longrightarrow> t_status (g t) = TS_completed \<Longrightarrow> t_progress (g t) = Pct 100"
  shows "full_when_completed (map g ts)"
  using assms unfolding full_when_completed_def by auto

lemma open_map:
  assumes "open_ids A ts"
      and "\<And>t. t \<in> set ts \<Longrightarrow> t_id (g t) \<in> A \<Longrightarrow> t_status (g t) = TS_completed \<Longrightarrow>
             t_id t \<in> A \<and> t_status t = TS_completed"
  shows "open_ids A (map g ts)"
  using assms unfolding open_ids_def by auto

text \<open>The loop \<open>k\<close> holds \<open>a\<close>: from the invariant to the condition inside a resumption.\<close>

lemma inv4_holding4:
  assumes inv: "inv4 ts q ls inc" and k: "k < length ls" and fr: "ls ! k = AwaitChunk loc"
  shows "holding4 k (l_id loc) ts q ls inc"
proof -
  let ?a = "l_id loc"
  have ls: "ls = ls[k := AwaitChunk loc]" using fr k by (metis list_update_id)
  have f: "fids ls = {?a} \<union> fids (ls[k := AwaitPause])"
    using fids_update [OF k, of "AwaitChunk loc"] ls by simp
  have oh: "one_holder ls" using inv by (simp add: inv4_def)
  have notin: "?a \<notin> fids (ls[k := AwaitPause])"
  proof
    assume "?a \<in> fids (ls[k := AwaitPause])"
    then obtain j where j: "j < length ls" "j \<noteq> k" "?a \<in> fid (ls ! j)"
      using fids_update_mem [OF k, of ?a AwaitPause] by auto
    moreover have "?a \<in> fid (ls ! k)" using fr by simp
    ultimately show False using oh k unfolding one_holder_def by blast
  qed
  have a_in: "?a \<in> fids ls" using f by simp
  have "inv4 ts q (ls[k := AwaitPause]) inc"
    using inv one_holder_clear [OF oh, of AwaitPause k] unfolding inv4_def f open_ids_Un
    by auto
  moreover have "?a \<notin> qids q" "?a \<notin> iids inc" "open_ids {?a} ts"
    using inv a_in f unfolding inv4_def open_ids_Un by (auto simp: open_ids_def)
  ultimately show ?thesis using k notin by (simp add: holding4_def)
qed

lemma holding4_exit:
  assumes "holding4 k a ts q ls inc" and "fid fr = {}"
  shows "inv4 ts q (ls[k := fr]) inc"
proof -
  from assms(1) have inv: "inv4 ts q (ls[k := AwaitPause]) inc" and k: "k < length ls"
    by (simp_all add: holding4_def)
  have f: "fids (ls[k := fr]) = fids (ls[k := AwaitPause])"
    using fids_update [OF k, of fr] assms(2) by simp
  have "one_holder (ls[k := fr])"
    using one_holder_clear [of "ls[k := AwaitPause]" fr k] inv assms(2) by (simp add: inv4_def)
  with inv show ?thesis unfolding inv4_def f by simp
qed

lemma holding4_chunk:
  assumes "holding4 k a ts q ls inc" and "l_id loc = a"
  shows "inv4 ts q (ls[k := AwaitChunk loc]) inc"
proof -
  from assms(1) have inv: "inv4 ts q (ls[k := AwaitPause]) inc" and k: "k < length ls"
    and a: "a \<notin> fids (ls[k := AwaitPause])" "a \<notin> qids q" "a \<notin> iids inc" "open_ids {a} ts"
    by (simp_all add: holding4_def)
  have f: "fids (ls[k := AwaitChunk loc]) = {a} \<union> fids (ls[k := AwaitPause])"
    using fids_update [OF k, of "AwaitChunk loc"] assms(2) by simp
  have "one_holder (ls[k := AwaitChunk loc])"
    using one_holder_set [of ls k "AwaitChunk loc"] inv k a(1) assms(2) by (simp add: inv4_def)
  with inv a show ?thesis unfolding inv4_def f open_ids_Un by auto
qed

lemma full_whenD:
  "full_when_completed ts \<Longrightarrow> t \<in> set ts \<Longrightarrow> t_status t = TS_completed \<Longrightarrow> t_progress t = Pct 100"
  unfolding full_when_completed_def by blast

lemma open_idsD: "open_ids A ts \<Longrightarrow> t \<in> set ts \<Longrightarrow> t_id t \<in> A \<Longrightarrow> t_status t \<noteq> TS_completed"
  unfolding open_ids_def by blast

lemma inv4D:
  assumes "inv4 ts q ls inc"
  shows "full_when_completed ts" "open_ids (fids ls \<union> iids inc) ts" "distinct (map fst q)"
    "one_holder ls" "fids ls \<inter> qids q = {}" "fids ls \<inter> iids inc = {}" "qids q \<inter> iids inc = {}"
  using assms by (simp_all add: inv4_def)

lemma holding4_complete:
  assumes "holding4 k a ts q ls inc"
  shows "inv4 (map (\<lambda>t. if t_id t = a then mark_completed now t else t) ts) q (ls[k := AwaitPause]) inc"
proof -
  let ?g = "\<lambda>t. if t_id t = a then mark_completed now t else t"
  let ?A = "fids (ls[k := AwaitPause]) \<union> iids inc"
  from assms have inv: "inv4 ts q (ls[k := AwaitPause]) inc"
    and a: "a \<notin> ?A"
    by (simp_all add: holding4_def)
  note i = inv4D [OF inv]
  have "full_when_completed (map ?g ts)"
  proof (rule full_map [OF i(1)])
    fix t assume t: "t \<in> set ts" "t_status (?g t) = TS_completed"
    show "t_progress (?g t) = Pct 100"
    proof (cases "t_id t = a")
      case True
      then show ?thesis by (simp add: mark_completed_def)
    next
      case False
      with t full_whenD [OF i(1), of t] show ?thesis by simp
    qed
  qed
  moreover have "open_ids ?A (map ?g ts)"
  proof (rule open_map [OF i(2)])
    fix t assume t: "t \<in> set ts" "t_id (?g t) \<in> ?A" "t_status (?g t) = TS_completed"
    show "t_id t \<in> ?A \<and> t_status t = TS_completed"
    proof (cases "t_id t = a")
      case True
      with t(2) a show ?thesis by (simp add: mark_completed_def)
    next
      case False
      with t show ?thesis by simp
    qed
  qed
  ultimately show ?thesis using i by (simp add: inv4_def)
qed

lemma holding4_update:
  assumes m: "holding4 k a ts q ls inc"
      and id: "\<And>t. t_id (f t) = t_id t"
      and st: "\<And>t. t_status (f t) = TS_completed \<Longrightarrow> t_status t = TS_completed"
  shows "holding4 k a (map (\<lambda>t. if t_id t = a then f t else t) ts) q ls inc"
proof -
  let ?g = "\<lambda>t. if t_id t = a then f t else t"
  from m have inv: "inv4 ts q (ls[k := AwaitPause]) inc" and oa: "open_ids {a} ts"
    by (simp_all add: holding4_def)
  note i = inv4D [OF inv]
  have ne: "t_id t \<noteq> a" if "t \<in> set ts" "t_status (?g t) = TS_completed" for t
  proof
    assume e: "t_id t = a"
    with that(2) have "t_status (f t) = TS_completed" by simp
    then have "t_status t = TS_completed" by (rule st)
    with open_idsD [OF oa that(1)] e show False by simp
  qed
  have "full_when_completed (map ?g ts)"
  proof (rule full_map [OF i(1)])
    fix t assume t: "t \<in> set ts" "t_status (?g t) = TS_completed"
    from ne [OF t] t full_whenD [OF i(1), of t] show "t_progress (?g t) = Pct 100" by simp
  qed
  moreover have op: "open_ids A (map ?g ts)" if "open_ids A ts" for A
  proof (rule open_map [OF that])
    fix t assume t: "t \<in> set ts" "t_id (?g t) \<in> A" "t_status (?g t) = TS_completed"
    from ne [OF t(1,3)] t show "t_id t \<in> A \<and> t_status t = TS_completed" by simp
  qed
  ultimately have "inv4 (map ?g ts) q (ls[k := AwaitPause]) inc"
    using i op [OF i(2)] by (simp add: inv4_def)
  with m op [OF oa] show ?thesis by (simp add: holding4_def)
qed

lemma inv4_pop:
  assumes "inv4 ts ((a, f) # rest) ls inc"
  shows "inv4 ts rest ls inc"
proof -
  note i = inv4D [OF assms]
  have "qids rest \<subseteq> qids ((a, f) # rest)" by (auto simp: qids_def)
  with i show ?thesis unfolding inv4_def by auto
qed

lemma inv4_start:
  assumes inv: "inv4 ts ((a, f) # rest) ls inc" and k: "k < length ls" and idle: "fid (ls ! k) = {}"
  shows "holding4 k a (map (\<lambda>t. if t_id t = a then t\<lparr>t_status := TS_transferring, t_startTime := Some now\<rparr> else t) ts)
           rest ls inc"
proof -
  let ?g = "\<lambda>t. if t_id t = a then t\<lparr>t_status := TS_transferring, t_startTime := Some now\<rparr> else t"
  note i0 = inv4D [OF inv]
  have f: "fids (ls[k := AwaitPause]) = fids ls"
    by (rule fids_update_idle [OF k idle]) simp
  have aq: "a \<in> qids ((a, f) # rest)" by (simp add: qids_def)
  have a: "a \<notin> fids ls" "a \<notin> iids inc" using i0(5,7) aq by blast+
  have a2: "a \<notin> qids rest" using i0(3) by (auto simp: qids_def)
  have p: "inv4 ts rest ls inc" using inv by (rule inv4_pop)
  note i = inv4D [OF p]
  have ne: "t_id t \<noteq> a" if "t_status (?g t) = TS_completed" for t
    using that by (cases "t_id t = a") simp_all
  have "full_when_completed (map ?g ts)"
  proof (rule full_map [OF i(1)])
    fix t assume t: "t \<in> set ts" "t_status (?g t) = TS_completed"
    from ne [OF t(2)] t full_whenD [OF i(1), of t] show "t_progress (?g t) = Pct 100" by simp
  qed
  moreover have "open_ids (fids ls \<union> iids inc) (map ?g ts)"
  proof (rule open_map [OF i(2)])
    fix t assume t: "t \<in> set ts" "t_id (?g t) \<in> fids ls \<union> iids inc" "t_status (?g t) = TS_completed"
    from ne [OF t(3)] t show "t_id t \<in> fids ls \<union> iids inc \<and> t_status t = TS_completed" by simp
  qed
  moreover have "open_ids {a} (map ?g ts)"
    unfolding open_ids_def
  proof (intro ballI impI)
    fix t assume t: "t \<in> set (map ?g ts)" and ta: "t_id t \<in> {a}"
    from t have "t \<in> ?g ` set ts" by (simp only: set_map)
    then obtain u where u: "t = ?g u" by (rule imageE)
    show "t_status t \<noteq> TS_completed"
    proof (cases "t_id u = a")
      case True
      with u show ?thesis by simp
    next
      case False
      with u ta show ?thesis by simp
    qed
  qed
  moreover have "one_holder (ls[k := AwaitPause])"
    using one_holder_clear [of ls AwaitPause k] i(4) by simp
  ultimately show ?thesis
    using i a a2 k unfolding holding4_def inv4_def f by simp
qed

lemma inv4_idle_exit:
  assumes "inv4 ts q ls inc" and "k < length ls" and "fid (ls ! k) = {}" and "fid fr = {}"
  shows "inv4 ts q (ls[k := fr]) inc"
  using inv4D [OF assms(1)] fids_update_idle [OF assms(2,3,4)] one_holder_clear [of ls fr k] assms(4)
  by (simp add: inv4_def)


subsection \<open>State level\<close>

lemma core_exit:
  "transfers (exit_loop k s) = transfers s" "sendQueue (exit_loop k s) = sendQueue s"
  "loops (exit_loop k s) = (loops s)[k := Finished]" "incoming (exit_loop k s) = incoming s"
  by (simp_all add: exit_loop_def)

lemma core_suspend:
  "transfers (suspend k fr s) = transfers s" "sendQueue (suspend k fr s) = sendQueue s"
  "loops (suspend k fr s) = (loops s)[k := fr]" "incoming (suspend k fr s) = incoming s"
  by (simp_all add: suspend_def)

lemma core_update_transfer:
  "transfers (update_transfer a f s) = map (\<lambda>t. if t_id t = a then f t else t) (transfers s)"
  "sendQueue (update_transfer a f s) = sendQueue s"
  "loops (update_transfer a f s) = loops s" "incoming (update_transfer a f s) = incoming s"
  by (simp_all add: update_transfer_def)

lemmas core_simps = core_exit core_suspend core_update_transfer

lemma peer_send_core:
  assumes "peer_send h d s = Inr s1"
  shows "transfers s1 = transfers s" "sendQueue s1 = sendQueue s" "loops s1 = loops s"
    "incoming s1 = incoming s"
  using assms by (auto simp: peer_send_def update_peer_def split: if_splits)

lemma holding_cong:
  "transfers s' = transfers s \<Longrightarrow> sendQueue s' = sendQueue s \<Longrightarrow> loops s' = loops s \<Longrightarrow>
   incoming s' = incoming s \<Longrightarrow> holding k a s' = holding k a s"
  by (simp add: holding_def)

lemma hook_inv_cong:
  "transfers s' = transfers s \<Longrightarrow> sendQueue s' = sendQueue s \<Longrightarrow> loops s' = loops s \<Longrightarrow>
   incoming s' = incoming s \<Longrightarrow> hook_inv s' = hook_inv s"
  by (simp add: hook_inv_def)

lemma holding_exit: "holding k a s \<Longrightarrow> hook_inv (exit_loop k s)"
  unfolding holding_def hook_inv_def by (simp add: core_simps holding4_exit)

lemma holding_pause: "holding k a s \<Longrightarrow> hook_inv (suspend k AwaitPause s)"
  unfolding holding_def hook_inv_def by (simp add: core_simps holding4_exit)

lemma holding_chunk: "holding k a s \<Longrightarrow> l_id loc = a \<Longrightarrow> hook_inv (suspend k (AwaitChunk loc) s)"
  unfolding holding_def hook_inv_def by (simp add: core_simps holding4_chunk)

lemma holding_complete:
  "holding k a s \<Longrightarrow> hook_inv (suspend k AwaitPause (update_transfer a (mark_completed now) s))"
  unfolding holding_def hook_inv_def by (simp add: core_simps holding4_complete)

lemma holding_update:
  assumes "holding k a s" and "\<And>t. t_id (f t) = t_id t"
      and "\<And>t. t_status (f t) = TS_completed \<Longrightarrow> t_status t = TS_completed"
  shows "holding k a (update_transfer a f s)"
  using holding4_update [OF assms(1) [unfolded holding_def] assms(2,3)]
  unfolding holding_def by (simp add: core_simps)

lemma after_for_inv:
  assumes m: "holding k a s" and a: "l_id loc = a"
  shows "hook_inv (after_for now k loc failed s)"
proof (cases "\<not> failed \<and> l_id loc \<notin> cancelledIds s")
  case True
  show ?thesis
  proof (cases "peer_send (l_peer loc) (Control FileComplete) s")
    case (Inl e)
    with True m show ?thesis by (simp add: after_for_def holding_exit)
  next
    case (Inr s1)
    have "holding k a s1" using holding_cong [OF peer_send_core [OF Inr]] m by simp
    with True Inr a show ?thesis by (simp add: after_for_def holding_complete)
  qed
next
  case False
  then have "after_for now k loc failed s = suspend k AwaitPause s"
    by (auto simp: after_for_def)
  with m show ?thesis by (simp add: holding_pause)
qed

lemma status_marks:
  "t_id (mark_cancelled t) = t_id t" "t_id (mark_error t) = t_id t"
  "t_id (set_progress b sz now st t) = t_id t"
  "t_status (mark_cancelled t) \<noteq> TS_completed" "t_status (mark_error t) \<noteq> TS_completed"
  "t_status (set_progress b sz now st t) = t_status t"
  by (simp_all add: mark_cancelled_def mark_error_def set_progress_def Let_def)

lemma for_head_inv:
  assumes m: "holding k a s" and a: "l_id loc = a"
  shows "hook_inv (for_head now k loc s)"
proof (cases "l_i loc < l_totalChunks loc")
  case more: True
  show ?thesis
  proof (cases "l_id loc \<in> cancelledIds s")
    case True
    show ?thesis
    proof (cases "peer_send (l_peer loc) (Control (FileCancel None)) s")
      case (Inl e)
      with more True m show ?thesis by (simp add: for_head_def holding_exit)
    next
      case (Inr s1)
      let ?s2 = "s1\<lparr>cancelledIds := cancelledIds s1 - {l_id loc}\<rparr>"
      have "holding k a ?s2" using holding_cong [of ?s2 s k a] peer_send_core [OF Inr] m by simp
      then have "holding k a (update_transfer a mark_cancelled ?s2)"
        by (rule holding_update) (simp_all add: status_marks)
      from after_for_inv [OF this a] more True Inr a show ?thesis
        by (simp add: for_head_def)
    qed
  next
    case False
    show ?thesis
    proof (cases "peer_destroyed (l_peer loc) s")
      case True
      have "holding k a (update_transfer a mark_error s)"
        using m by (rule holding_update) (simp_all add: status_marks)
      from after_for_inv [OF this a] more False True a show ?thesis
        by (simp add: for_head_def)
    next
      case alive: False
      from more False alive holding_chunk [OF m a] show ?thesis by (simp add: for_head_def)
    qed
  qed
next
  case False
  with after_for_inv [OF m a] show ?thesis by (simp add: for_head_def)
qed

lemma hook_inv_holding:
  assumes "hook_inv s" and "k < length (loops s)" and "loops s ! k = AwaitChunk loc"
  shows "holding k (l_id loc) s"
  using inv4_holding4 [OF assms(1) [unfolded hook_inv_def] assms(2,3)] by (simp add: holding_def)

lemma after_read_inv:
  assumes inv: "hook_inv s" and k: "k < length (loops s)" and fr: "loops s ! k = AwaitChunk loc"
  shows "hook_inv (after_read tk k loc s)"
proof -
  let ?a = "l_id loc"
  note m = hook_inv_holding [OF inv k fr]
  show ?thesis
  proof (cases "tk_read_ok tk")
    case False
    with holding_exit [OF m] show ?thesis by (simp add: after_read_def)
  next
    case ok: True
    show ?thesis
    proof (cases "tk_buffered tk > HIGH_WATER_MARK")
      case True
      with ok inv show ?thesis by (simp add: after_read_def)
    next
      case low: False
      let ?chunk = "slice (l_file loc) (l_i loc * CHUNK_SIZE)
                      (min (l_i loc * CHUNK_SIZE + CHUNK_SIZE) (f_size (l_file loc)))"
      show ?thesis
      proof (cases "peer_send (l_peer loc) (Chunk ?chunk) s")
        case (Inl e)
        have "holding k ?a (update_transfer ?a mark_error s)"
          using m by (rule holding_update) (simp_all add: status_marks)
        from after_for_inv [OF this refl] ok low Inl show ?thesis
          by (simp add: after_read_def Let_def)
      next
        case (Inr s1)
        have m1: "holding k ?a s1" using holding_cong [OF peer_send_core [OF Inr]] m by simp
        let ?sent = "l_sentBytes loc + length ?chunk"
        let ?publish = "tk_now tk - l_lastProgressUpdate loc > PROGRESS_THROTTLE \<or>
                        l_i loc = l_totalChunks loc - 1"
        let ?s2 = "if ?publish
                   then update_transfer ?a
                          (set_progress ?sent (f_size (l_file loc)) (tk_now tk)
                             (l_currentStartTime loc)) s1
                   else s1"
        let ?loc' = "loc\<lparr>l_sentBytes := ?sent,
                           l_lastProgressUpdate :=
                             (if ?publish then tk_now tk else l_lastProgressUpdate loc),
                           l_i := l_i loc + 1\<rparr>"
        have "holding k ?a (update_transfer ?a
                          (set_progress ?sent (f_size (l_file loc)) (tk_now tk)
                             (l_currentStartTime loc)) s1)"
          using m1 by (rule holding_update) (simp_all add: status_marks)
        with m1 have m2: "holding k ?a ?s2" by simp
        have "l_id ?loc' = ?a" by simp
        from for_head_inv [OF m2 this, of "tk_now tk"] ok low Inr show ?thesis
          by (simp add: after_read_def Let_def)
      qed
    qed
  qed
qed

lemma hook_inv_idle_exit:
  assumes "hook_inv s" and "k < length (loops s)" and "fid (loops s ! k) = {}"
  shows "hook_inv (exit_loop k s)"
  using inv4_idle_exit [OF assms(1) [unfolded hook_inv_def] assms(2,3), of Finished]
  by (simp add: hook_inv_def core_simps)

lemma loop_head_inv:
  assumes inv: "hook_inv s" and k: "k < length (loops s)" and idle: "fid (loops s ! k) = {}"
  shows "hook_inv (loop_head now k s)"
proof (cases "sendQueue s")
  case Nil
  with hook_inv_idle_exit [OF inv k idle] show ?thesis by (simp add: loop_head_def)
next
  case (Cons e rest)
  obtain tid f where e: "e = (tid, f)" by (cases e)
  let ?s1 = "s\<lparr>sendQueue := rest\<rparr>"
  have q: "sendQueue s = (tid, f) # rest" using Cons e by simp
  have inv1: "hook_inv ?s1"
    using inv4_pop [of "transfers s" tid f rest "loops s" "incoming s"] inv q
    by (simp add: hook_inv_def)
  have k1: "k < length (loops ?s1)" "fid (loops ?s1 ! k) = {}" using k idle by simp_all
  note ex1 = hook_inv_idle_exit [OF inv1 k1]
  show ?thesis
  proof (cases "peerRef s")
    case None
    with ex1 q show ?thesis by (simp add: loop_head_def)
  next
    case (Some h)
    show ?thesis
    proof (cases "peer_destroyed h ?s1")
      case True
      with ex1 q Some show ?thesis by (simp add: loop_head_def)
    next
      case alive: False
      let ?g = "\<lambda>t. t\<lparr>t_status := TS_transferring, t_startTime := Some now\<rparr>"
      let ?s2 = "update_transfer tid ?g ?s1"
      let ?n = "(f_size f + CHUNK_SIZE - 1) div CHUNK_SIZE"
      let ?meta = "Control (FileMeta (Some tid) (f_name f) (f_size f) ?n)"
      let ?loc = "\<lparr> l_peer = h, l_id = tid, l_file = f, l_totalChunks = ?n,
                     l_currentStartTime = now, l_sentBytes = 0, l_lastProgressUpdate = 0,
                     l_i = 0 \<rparr>"
      have m2: "holding k tid ?s2"
        using inv4_start [of "transfers s" tid f rest "loops s" "incoming s" k now] inv q k idle
        by (simp add: hook_inv_def holding_def core_simps)
      show ?thesis
      proof (cases "peer_send h ?meta ?s2")
        case (Inl err)
        with holding_exit [OF m2] q Some alive show ?thesis
          by (simp add: loop_head_def Let_def)
      next
        case (Inr s3)
        have m3: "holding k tid s3" using holding_cong [OF peer_send_core [OF Inr]] m2 by simp
        have "l_id ?loc = tid" by simp
        from for_head_inv [OF m3 this, of now] q Some alive Inr show ?thesis
          by (simp add: loop_head_def Let_def)
      qed
    qed
  qed
qed

lemma resume_inv:
  assumes "hook_inv s"
  shows "hook_inv (resume k tk s)"
proof (cases "k < length (loops s)")
  case False
  with assms show ?thesis by (simp add: resume_def)
next
  case True
  show ?thesis
  proof (cases "loops s ! k")
    case AwaitWakeLock
    with loop_head_inv [OF assms True, of "tk_now tk"] True show ?thesis
      by (simp add: resume_def)
  next
    case AwaitPause
    with loop_head_inv [OF assms True, of "tk_now tk"] True show ?thesis
      by (simp add: resume_def)
  next
    case (AwaitChunk loc)
    with after_read_inv [OF assms True, of loc tk] True show ?thesis
      by (simp add: resume_def)
  next
    case Finished
    with assms True show ?thesis by (simp add: resume_def)
  qed
qed


subsection \<open>Events\<close>

definition new_ids :: "action \<Rightarrow> string list" where
  "new_ids a =
     (case a of
        SendFiles files \<Rightarrow> map fst files
      | PeerData h now uid d \<Rightarrow>
          (case d of
             Control msg \<Rightarrow>
               (case msg of
                  FileMeta m name sz n \<Rightarrow> [if truthy m then the m else uid]
                | _ \<Rightarrow> [])
           | _ \<Rightarrow> [])
      | _ \<Rightarrow> [])"

definition fresh_action :: "state \<Rightarrow> action \<Rightarrow> bool" where
  "fresh_action s a = (distinct (new_ids a) \<and> set (new_ids a) \<inter> used_ids s = {})"

primrec fresh_run :: "codec_lib \<Rightarrow> state \<Rightarrow> action list \<Rightarrow> bool" where
  "fresh_run lib s [] = True"
| "fresh_run lib s (a # as) = (fresh_action s a \<and> fresh_run lib (step lib a s) as)"

lemma inv4_map:
  assumes inv: "inv4 ts q ls inc"
      and id: "\<And>t. t \<in> set ts \<Longrightarrow> t_id (g t) = t_id t"
      and st: "\<And>t. t \<in> set ts \<Longrightarrow> t_status (g t) = TS_completed \<Longrightarrow>
                 t_status t = TS_completed \<and> t_progress (g t) = t_progress t"
  shows "inv4 (map g ts) q ls inc"
proof -
  note i = inv4D [OF inv]
  have "full_when_completed (map g ts)"
  proof (rule full_map [OF i(1)])
    fix t assume t: "t \<in> set ts" "t_status (g t) = TS_completed"
    from st [OF t] full_whenD [OF i(1) t(1)] show "t_progress (g t) = Pct 100" by simp
  qed
  moreover have "open_ids (fids ls \<union> iids inc) (map g ts)"
  proof (rule open_map [OF i(2)])
    fix t assume t: "t \<in> set ts" "t_id (g t) \<in> fids ls \<union> iids inc" "t_status (g t) = TS_completed"
    from st [OF t(1,3)] id [OF t(1)] t(2)
    show "t_id t \<in> fids ls \<union> iids inc \<and> t_status t = TS_completed" by simp
  qed
  ultimately show ?thesis using i by (simp add: inv4_def)
qed

lemma inv4_incoming:
  assumes "inv4 ts q ls inc" and "iids inc' \<subseteq> iids inc"
  shows "inv4 ts q ls inc'"
proof -
  note i = inv4D [OF assms(1)]
  have "open_ids (fids ls \<union> iids inc') ts"
    using i(2) assms(2) unfolding open_ids_def by blast
  with i assms(2) show ?thesis unfolding inv4_def by blast
qed

lemma inv4_meta:
  assumes inv: "inv4 ts q ls inc" and new: "a \<notin> t_id ` set ts" "a \<notin> qids q" "a \<notin> fids ls"
      and r: "t_id r = a" "t_status r \<noteq> TS_completed" and i': "i_id i = a"
  shows "inv4 (ts @ [r]) q ls (Some i)"
proof -
  note i = inv4D [OF inv]
  have "full_when_completed (ts @ [r])"
    using i(1) r(2) unfolding full_when_completed_def by auto
  moreover have "open_ids (fids ls \<union> iids (Some i)) (ts @ [r])"
    unfolding open_ids_def
  proof (intro ballI impI)
    fix t assume t: "t \<in> set (ts @ [r])" and m: "t_id t \<in> fids ls \<union> iids (Some i)"
    show "t_status t \<noteq> TS_completed"
    proof (cases "t = r")
      case True
      with r(2) show ?thesis by simp
    next
      case False
      with t have ts: "t \<in> set ts" by simp
      with new(1) have "t_id t \<noteq> a" by blast
      with m i' have "t_id t \<in> fids ls" by (simp add: iids_def)
      with open_idsD [OF i(2) ts] show ?thesis by simp
    qed
  qed
  ultimately show ?thesis
    using i new i' unfolding inv4_def by (simp add: iids_def)
qed

lemma inv4_complete_incoming:
  assumes inv: "inv4 ts q ls (Some i)"
  shows "inv4 (map (\<lambda>t. if t_id t = i_id i then mark_completed now t else t) ts) q ls None"
proof -
  let ?g = "\<lambda>t. if t_id t = i_id i then mark_completed now t else t"
  note j = inv4D [OF inv]
  have nf: "i_id i \<notin> fids ls" using j(6) by (simp add: iids_def)
  have "full_when_completed (map ?g ts)"
  proof (rule full_map [OF j(1)])
    fix t assume t: "t \<in> set ts" "t_status (?g t) = TS_completed"
    show "t_progress (?g t) = Pct 100"
    proof (cases "t_id t = i_id i")
      case True
      then show ?thesis by (simp add: mark_completed_def)
    next
      case False
      with t full_whenD [OF j(1), of t] show ?thesis by simp
    qed
  qed
  moreover have "open_ids (fids ls) ts" using j(2) unfolding open_ids_def by blast
  then have "open_ids (fids ls) (map ?g ts)"
  proof (rule open_map)
    fix t assume t: "t \<in> set ts" "t_id (?g t) \<in> fids ls" "t_status (?g t) = TS_completed"
    show "t_id t \<in> fids ls \<and> t_status t = TS_completed"
    proof (cases "t_id t = i_id i")
      case True
      with t(2) nf show ?thesis by (simp add: mark_completed_def)
    next
      case False
      with t show ?thesis by simp
    qed
  qed
  ultimately show ?thesis using j by (simp add: inv4_def iids_def)
qed

lemma inv4_chunk:
  assumes inv: "inv4 ts q ls (Some i)" and i': "i_id i' = i_id i"
  shows "inv4 (map (\<lambda>t. if t_id t = i_id i then set_progress b sz now st t else t) ts) q ls (Some i')"
proof -
  let ?g = "\<lambda>t. if t_id t = i_id i then set_progress b sz now st t else t"
  note j = inv4D [OF inv]
  have oi: "open_ids {i_id i} ts" using j(2) unfolding open_ids_def by (simp add: iids_def)
  have "inv4 (map ?g ts) q ls (Some i)"
  proof (rule inv4_map [OF inv])
    fix t assume "t \<in> set ts"
    show "t_id (?g t) = t_id t" by (simp add: status_marks)
  next
    fix t assume t: "t \<in> set ts" "t_status (?g t) = TS_completed"
    show "t_status t = TS_completed \<and> t_progress (?g t) = t_progress t"
    proof (cases "t_id t = i_id i")
      case True
      with t(2) have "t_status t = TS_completed" by (simp add: status_marks)
      with open_idsD [OF oi t(1)] True show ?thesis by simp
    next
      case False
      with t show ?thesis by simp
    qed
  qed
  then show ?thesis by (rule inv4_incoming) (simp add: iids_def i')
qed

lemma inv4_cancel:
  assumes inv: "inv4 ts q ls inc"
  shows "inv4 (map (\<lambda>t. if c t then mark_cancelled t else t) ts) q ls inc"
proof (rule inv4_map [OF inv])
  fix t assume "t \<in> set ts"
  show "t_id (if c t then mark_cancelled t else t) = t_id t" by (simp add: status_marks)
next
  fix t assume "t \<in> set ts" "t_status (if c t then mark_cancelled t else t) = TS_completed"
  then show "t_status t = TS_completed \<and>
             t_progress (if c t then mark_cancelled t else t) = t_progress t"
    by (cases "c t") (simp_all add: status_marks)
qed

lemma inv4_filter:
  assumes inv: "inv4 ts q ls inc"
  shows "inv4 ts (filter p q) ls inc"
proof -
  note i = inv4D [OF inv]
  have "qids (filter p q) \<subseteq> qids q" by (auto simp: qids_def)
  moreover have "distinct (map fst (filter p q))" using i(3) by (rule distinct_map_filter)
  ultimately show ?thesis using i unfolding inv4_def by blast
qed

lemma fids_append_idle: "fid fr = {} \<Longrightarrow> fids (ls @ [fr]) = fids ls"
  by (simp add: fids_def)

lemma one_holder_append:
  assumes "one_holder ls" and "fid fr = {}"
  shows "one_holder (ls @ [fr])"
  unfolding one_holder_def
proof (intro allI impI)
  fix i j a
  assume i: "i < length (ls @ [fr])" and j: "j < length (ls @ [fr])"
    and ai: "a \<in> fid ((ls @ [fr]) ! i)" and aj: "a \<in> fid ((ls @ [fr]) ! j)"
  have i': "i < length ls" using i ai assms(2) by (cases "i = length ls") (simp_all add: nth_append)
  have j': "j < length ls" using j aj assms(2) by (cases "j = length ls") (simp_all add: nth_append)
  from ai aj i' j' have "a \<in> fid (ls ! i)" "a \<in> fid (ls ! j)" by (simp_all add: nth_append)
  with assms(1) i' j' show "i = j" unfolding one_holder_def by blast
qed

lemma inv4_loop_start:
  assumes "inv4 ts q ls inc" and "fid fr = {}"
  shows "inv4 ts q (ls @ [fr]) inc"
  using inv4D [OF assms(1)] fids_append_idle [OF assms(2), of ls] one_holder_append [OF _ assms(2), of ls]
  by (simp add: inv4_def)

lemma inv4_enqueue:
  assumes inv: "inv4 ts q ls inc"
      and d: "distinct (map fst files)"
      and new: "set (map fst files) \<inter> (t_id ` set ts \<union> qids q \<union> fids ls \<union> iids inc) = {}"
  shows "inv4 (ts @ map queued_transfer files) (q @ enqueued files) ls inc"
proof -
  note i = inv4D [OF inv]
  let ?N = "set (map fst files)"
  have idm: "map t_id (map queued_transfer files) = map fst files"
    by (simp add: queued_transfer_def comp_def split_beta)
  have ids: "t_id ` set (map queued_transfer files) = ?N"
    using arg_cong [OF idm, of set] by (simp only: set_map)
  have st: "\<And>t. t \<in> set (map queued_transfer files) \<Longrightarrow> t_status t = TS_queued"
    by (auto simp: queued_transfer_def split: prod.splits)
  have qm: "map fst (enqueued files) = map fst files"
    by (simp add: enqueued_def comp_def split_beta)
  have qn: "qids (enqueued files) = ?N"
    using arg_cong [OF qm, of set] by (simp only: set_map qids_def)
  have "full_when_completed (ts @ map queued_transfer files)"
    unfolding full_when_completed_def
  proof (intro ballI impI)
    fix t assume t: "t \<in> set (ts @ map queued_transfer files)" "t_status t = TS_completed"
    show "t_progress t = Pct 100"
    proof (cases "t \<in> set ts")
      case True
      with t(2) i(1) show ?thesis by (rule_tac full_whenD)
    next
      case False
      with t(1) have "t \<in> set (map queued_transfer files)" by simp
      from st [OF this] t(2) show ?thesis by simp
    qed
  qed
  moreover have "open_ids (fids ls \<union> iids inc) (ts @ map queued_transfer files)"
    unfolding open_ids_def
  proof (intro ballI impI)
    fix t assume t: "t \<in> set (ts @ map queued_transfer files)" "t_id t \<in> fids ls \<union> iids inc"
    show "t_status t \<noteq> TS_completed"
    proof (cases "t \<in> set ts")
      case True
      with open_idsD [OF i(2)] t(2) show ?thesis by blast
    next
      case False
      with t(1) have "t \<in> set (map queued_transfer files)" by simp
      from st [OF this] show ?thesis by simp
    qed
  qed
  moreover have "distinct (map fst (q @ enqueued files))"
    using i(3) d new qm by (auto simp: qids_def)
  moreover have "qids (q @ enqueued files) = qids q \<union> ?N"
    using qn by (simp add: qids_def image_Un)
  ultimately show ?thesis using i new unfolding inv4_def by auto
qed


lemma handleData_inv:
  assumes inv: "hook_inv s" and fresh: "fresh_action s (PeerData h now uid d)"
  shows "hook_inv (handleData now uid d s)"
proof (cases d)
  case NotJson
  with inv show ?thesis by (simp add: handleData_def)
next
  case (Chunk chunk)
  show ?thesis
  proof (cases "incoming s")
    case None
    with inv Chunk show ?thesis by (simp add: handleData_def on_chunk_def)
  next
    case (Some inc0)
    let ?inc = "inc0\<lparr>i_chunks := i_chunks inc0 @ [chunk],
                        i_receivedBytes := i_receivedBytes inc0 + length chunk\<rparr>"
    from inv Some have "inv4 (transfers s) (sendQueue s) (loops s) (Some inc0)"
      by (simp add: hook_inv_def)
    from inv4_chunk [OF this, of ?inc "i_receivedBytes inc0 + length chunk" "i_size inc0" now
        "i_startTime inc0"]
    show ?thesis using Chunk Some
      by (simp add: handleData_def on_chunk_def hook_inv_def core_simps Let_def)
  qed
next
  case (Control msg)
  have hd: "handleData now uid d s =
      on_chat uid msg (on_file_cancel msg (on_file_complete now msg (on_file_meta now uid msg s)))"
    using Control by (simp add: handleData_def)
  show ?thesis
  proof (cases msg)
    case OtherJson
    with inv show ?thesis
      by (simp add: hd on_chat_def on_file_cancel_def on_file_complete_def on_file_meta_def)
  next
    case (Chat body ts)
    with inv show ?thesis
      by (simp add: hd on_chat_def on_file_cancel_def on_file_complete_def on_file_meta_def
          hook_inv_def)
  next
    case (FileMeta m name sz n)
    let ?a = "if truthy m then the m else uid"
    from fresh Control FileMeta have new: "?a \<notin> t_id ` set (transfers s)"
        "?a \<notin> qids (sendQueue s)" "?a \<notin> fids (loops s)"
      by (simp_all add: fresh_action_def new_ids_def used_ids_def)
    let ?r = "\<lparr> t_id = ?a, t_name = name, t_size = sz, t_progress = Pct 0, t_speed = 0,
                t_status = TS_transferring, t_direction = Dir_receive, t_eta = None,
                t_startTime = Some now, t_endTime = None \<rparr>"
    let ?i = "\<lparr> i_id = ?a, i_name = name, i_size = sz, i_totalChunks = n,
                i_chunks = [], i_receivedBytes = 0, i_startTime = now \<rparr>"
    have "inv4 (transfers s @ [?r]) (sendQueue s) (loops s) (Some ?i)"
      by (rule inv4_meta [OF inv [unfolded hook_inv_def] new]) simp_all
    then show ?thesis using FileMeta
      by (simp add: hd on_chat_def on_file_cancel_def on_file_complete_def on_file_meta_def
          hook_inv_def Let_def)
  next
    case FileComplete
    show ?thesis
    proof (cases "incoming s")
      case None
      with inv FileComplete show ?thesis
        by (simp add: hd on_chat_def on_file_cancel_def on_file_complete_def on_file_meta_def)
    next
      case (Some inc)
      from inv Some have "inv4 (transfers s) (sendQueue s) (loops s) (Some inc)"
        by (simp add: hook_inv_def)
      from inv4_complete_incoming [OF this, of now] show ?thesis using FileComplete Some
        by (simp add: hd on_chat_def on_file_cancel_def on_file_complete_def on_file_meta_def
            hook_inv_def core_simps)
    qed
  next
    case (FileCancel m)
    let ?c = "or_else m (map_option i_id (incoming s))"
    let ?s1 = "if truthy ?c
               then update_transfer (the ?c) mark_cancelled
                      (s\<lparr>cancelledIds := insert (the ?c) (cancelledIds s)\<rparr>)
               else s"
    have c1: "sendQueue ?s1 = sendQueue s" "loops ?s1 = loops s" "incoming ?s1 = incoming s"
      by (simp_all add: core_simps)
    have "inv4 (transfers ?s1) (sendQueue s) (loops s) (incoming s)"
      using inv4_cancel [OF inv [unfolded hook_inv_def], of "\<lambda>t. t_id t = the ?c"] inv
      by (simp add: core_simps hook_inv_def)
    then have i1: "hook_inv ?s1" unfolding hook_inv_def c1 .
    have "hook_inv (?s1\<lparr>incoming := None\<rparr>)"
      using inv4_incoming [OF i1 [unfolded hook_inv_def], of None]
      by (simp add: hook_inv_def iids_def)
    with i1 have "hook_inv (on_file_cancel msg s)"
      unfolding FileCancel on_file_cancel_def by (simp add: Let_def)
    then show ?thesis using FileCancel
      by (simp add: hd on_chat_def on_file_complete_def on_file_meta_def)
  qed
qed

lemma sendFiles_inv:
  assumes inv: "hook_inv s" and fresh: "fresh_action s (SendFiles files)"
  shows "hook_inv (sendFiles files s)"
proof -
  from fresh have d: "distinct (map fst files)"
    and new: "set (map fst files) \<inter>
        (t_id ` set (transfers s) \<union> qids (sendQueue s) \<union> fids (loops s) \<union> iids (incoming s)) = {}"
    by (simp_all add: fresh_action_def new_ids_def used_ids_def)
  note e = inv4_enqueue [OF inv [unfolded hook_inv_def] d new]
  show ?thesis
  proof (cases "isSending s")
    case True
    with e show ?thesis by (simp add: sendFiles_def hook_inv_def enqueued_def)
  next
    case False
    with inv4_loop_start [OF e, of AwaitWakeLock] show ?thesis
      by (simp add: sendFiles_def processNextFile_def hook_inv_def enqueued_def)
  qed
qed

lemma cancelTransfer_inv:
  assumes inv: "hook_inv s"
  shows "hook_inv (cancelTransfer tid s)"
proof (cases "find (\<lambda>t. t_id t = tid) (transfers s)")
  case None
  with inv show ?thesis by (simp add: cancelTransfer_def)
next
  case (Some transfer)
  let ?s1 = "s\<lparr>cancelledIds := insert tid (cancelledIds s)\<rparr>"
  let ?notified = "case peerRef ?s1 of
                    None \<Rightarrow> Inr ?s1
                  | Some h \<Rightarrow>
                      (if t_status transfer = TS_transferring \<and> \<not> peer_destroyed h ?s1
                       then peer_send h (Control (FileCancel (Some tid))) ?s1
                       else Inr ?s1)"
  have i1: "hook_inv ?s1" using inv by (simp add: hook_inv_def)
  show ?thesis
  proof (cases ?notified)
    case (Inl e)
    with Some i1 show ?thesis by (simp add: cancelTransfer_def Let_def)
  next
    case (Inr s2)
    have c2: "transfers s2 = transfers s" "sendQueue s2 = sendQueue s" "loops s2 = loops s"
      "incoming s2 = incoming s"
      using Inr peer_send_core [of _ "Control (FileCancel (Some tid))" ?s1 s2]
      by (auto split: option.splits if_splits)
    let ?c = "\<lambda>t. t_id t = tid \<and> (t_status t = TS_queued \<or> t_status t = TS_transferring)"
    from inv4_filter [OF inv4_cancel [OF inv [unfolded hook_inv_def], of ?c], of "\<lambda>e. fst e \<noteq> tid"]
    show ?thesis using Some Inr c2
      by (simp add: cancelTransfer_def Let_def hook_inv_def)
  qed
qed

lemma inv4_cleared: "one_holder ls \<Longrightarrow> inv4 [] [] ls None"
  by (simp add: inv4_def full_when_completed_def open_ids_def qids_def iids_def)

lemma disconnect_inv:
  assumes inv: "hook_inv s"
  shows "hook_inv (disconnect s)"
proof -
  have "loops (disconnect s) = loops s" "transfers (disconnect s) = []"
    "sendQueue (disconnect s) = []" "incoming (disconnect s) = None"
    by (simp_all add: disconnect_def destroy_def update_peer_def Let_def split: option.splits)
  with inv4_cleared [of "loops s"] inv4D(4) [OF inv [unfolded hook_inv_def]]
  show ?thesis by (simp add: hook_inv_def)
qed

definition same_core :: "state \<Rightarrow> state \<Rightarrow> bool" where
  "same_core s' s =
     (transfers s' = transfers s \<and> sendQueue s' = sendQueue s \<and> loops s' = loops s \<and>
      incoming s' = incoming s)"

lemma same_core_inv: "same_core s' s \<Longrightarrow> hook_inv s \<Longrightarrow> hook_inv s'"
  by (simp add: same_core_def hook_inv_def)

lemma same_core_refl [simp]: "same_core s s"
  by (simp add: same_core_def)

lemma same_core_trans: "same_core s'' s' \<Longrightarrow> same_core s' s \<Longrightarrow> same_core s'' s"
  by (simp add: same_core_def)

lemma same_core_update_peer [simp]: "same_core (update_peer h f s) s"
  by (simp add: same_core_def update_peer_def)

lemma same_core_destroy [simp]: "same_core (destroy h s) s"
  by (simp add: destroy_def)

lemma same_core_createPeerInstance: "same_core (snd (createPeerInstance ini s)) s"
  by (simp add: createPeerInstance_def Let_def same_core_def destroy_def update_peer_def
      split: option.splits)

lemma same_core_createOffer: "same_core (createOffer s) s"
proof -
  let ?s0 = "s\<lparr>error := None, localSignal := None, signalStatus := Some SS_gathering,
               connectionState := CS_connecting\<rparr>"
  have "same_core ?s0 s" by (simp add: same_core_def)
  with same_core_createPeerInstance [of True ?s0] show ?thesis
    unfolding createOffer_def by (rule same_core_trans)
qed

lemma same_core_peer_signal: "peer_signal h sig s = Inr s1 \<Longrightarrow> same_core s1 s"
  by (auto simp: peer_signal_def split: if_splits)

lemma same_core_offer_failed [simp]: "same_core (offer_failed e s) s"
  by (simp add: offer_failed_def same_core_def)

lemma same_core_answer_failed [simp]: "same_core (answer_failed e s) s"
  by (simp add: answer_failed_def same_core_def)

lemma same_core_acceptOffer: "same_core (acceptOffer lib enc s) s"
proof -
  let ?s0 = "s\<lparr>error := None, localSignal := None, signalStatus := Some SS_gathering,
               connectionState := CS_connecting\<rparr>"
  obtain r s2 where c: "createPeerInstance False ?s0 = (r, s2)" by (cases "createPeerInstance False ?s0")
  have "same_core ?s0 s" by (simp add: same_core_def)
  with same_core_createPeerInstance [of False ?s0] c have s2: "same_core s2 s"
    by (auto intro: same_core_trans)
  have f: "same_core (offer_failed e s2) s" for e
    using same_core_offer_failed [of e s2] s2 by (rule same_core_trans)
  show ?thesis
  proof (cases "trim enc = [] \<or> connectionState s = CS_connected")
    case True
    then show ?thesis by (auto simp: acceptOffer_def)
  next
    case False
    show ?thesis
    proof (cases r)
      case (Inl e)
      with False c f show ?thesis by (simp add: acceptOffer_def)
    next
      case (Inr h)
      show ?thesis
      proof (cases "decodeSignal lib (trim enc)")
        case (Inl e)
        with False c f \<open>r = Inr h\<close> show ?thesis by (simp add: acceptOffer_def)
      next
        case sig: (Inr sig)
        show ?thesis
        proof (cases "peer_signal h sig s2")
          case (Inl e)
          with False c f sig \<open>r = Inr h\<close> show ?thesis by (simp add: acceptOffer_def)
        next
          case s3: (Inr s3)
          from same_core_peer_signal [OF s3] s2 have "same_core s3 s" by (rule same_core_trans)
          with False c sig s3 \<open>r = Inr h\<close> show ?thesis by (simp add: acceptOffer_def)
        qed
      qed
    qed
  qed
qed

lemma same_core_acceptAnswer: "same_core (acceptAnswer lib enc s) s"
proof -
  let ?s1 = "s\<lparr>error := None\<rparr>"
  have s1: "same_core ?s1 s" by (simp add: same_core_def)
  have f: "same_core (answer_failed e ?s1) s" for e
    using same_core_answer_failed [of e ?s1] s1 by (rule same_core_trans)
  show ?thesis
  proof (cases "trim enc = [] \<or> connectionState s = CS_connected")
    case True
    then show ?thesis by (auto simp: acceptAnswer_def)
  next
    case False
    show ?thesis
    proof (cases "decodeSignal lib (trim enc)")
      case (Inl e)
      with False f show ?thesis by (simp add: acceptAnswer_def Let_def)
    next
      case sig: (Inr sig)
      show ?thesis
      proof (cases "peerRef s")
        case None
        with False f sig show ?thesis by (simp add: acceptAnswer_def Let_def)
      next
        case (Some h)
        show ?thesis
        proof (cases "peer_signal h sig ?s1")
          case (Inl e)
          with False f sig Some show ?thesis by (simp add: acceptAnswer_def Let_def)
        next
          case s2: (Inr s2)
          from same_core_peer_signal [OF s2] s1 have "same_core s2 s" by (rule same_core_trans)
          with False sig Some s2 show ?thesis by (simp add: acceptAnswer_def Let_def)
        qed
      qed
    qed
  qed
qed

lemma same_core_sendMessage: "same_core (sendMessage txt now uid s) s"
proof -
  have "same_core (s1\<lparr>messages := ms\<rparr>) s" if "peer_send h d s = Inr s1" for h d s1 ms
    using peer_send_core [OF that] by (simp add: same_core_def)
  then show ?thesis
    by (auto simp: sendMessage_def split: option.splits sum.splits)
qed

lemma same_core_on_signal: "same_core (on_signal lib d s) s"
  by (auto simp: on_signal_def same_core_def split: sum.splits)

lemma same_core_on_timeout: "same_core (on_timeout s) s"
proof -
  let ?s1 = "s\<lparr>error := Some ''connectionTimeout'', connectionState := CS_error\<rparr>"
  have s1: "same_core ?s1 s" by (simp add: same_core_def)
  have "same_core (destroy h ?s1) s" for h
    using same_core_destroy [of h ?s1] s1 by (rule same_core_trans)
  with s1 show ?thesis by (auto simp: on_timeout_def Let_def split: option.splits)
qed

lemma same_core_field [simp]:
  "same_core (on_connect s) s" "same_core (on_close s) s" "same_core (on_error c m s) s"
  "same_core (clearError s) s"
  by (simp_all add: same_core_def on_connect_def on_close_def on_error_def clearError_def Let_def)

lemma step_inv:
  assumes inv: "hook_inv s" and fresh: "fresh_action s a"
  shows "hook_inv (step lib a s)"
proof (cases a)
  case CreateOffer
  with same_core_inv [OF same_core_createOffer inv] show ?thesis by (simp add: step_def)
next
  case (AcceptOffer enc)
  with same_core_inv [OF same_core_acceptOffer inv] show ?thesis by (simp add: step_def)
next
  case (AcceptAnswer enc)
  with same_core_inv [OF same_core_acceptAnswer inv] show ?thesis by (simp add: step_def)
next
  case Disconnect
  with disconnect_inv [OF inv] show ?thesis by (simp add: step_def)
next
  case ClearError
  with same_core_inv [OF same_core_field(4) inv] show ?thesis by (simp add: step_def)
next
  case (SendFiles files)
  with sendFiles_inv [OF inv] fresh show ?thesis by (simp add: step_def)
next
  case (CancelTransfer tid)
  with cancelTransfer_inv [OF inv] show ?thesis by (simp add: step_def)
next
  case (SendMessage body now uid)
  with same_core_inv [OF same_core_sendMessage inv] show ?thesis by (simp add: step_def)
next
  case (PeerSignal h d)
  with same_core_inv [OF same_core_on_signal inv] inv show ?thesis by (simp add: step_def)
next
  case (PeerConnect h)
  have "same_core (on_connect (update_peer h f s)) s" for f
    using same_core_field(1) same_core_update_peer by (rule same_core_trans)
  from same_core_inv [OF this inv] PeerConnect inv show ?thesis by (simp add: step_def)
next
  case (PeerData h now uid d)
  with handleData_inv [OF inv] fresh inv show ?thesis by (simp add: step_def)
next
  case (PeerClose h)
  have "same_core (on_close (destroy h s)) s"
    using same_core_field(2) same_core_destroy by (rule same_core_trans)
  from same_core_inv [OF this inv] PeerClose inv show ?thesis by (simp add: step_def)
next
  case (PeerError h c m)
  have "same_core (on_error c m (destroy h s)) s"
    using same_core_field(3) same_core_destroy by (rule same_core_trans)
  from same_core_inv [OF this inv] PeerError inv show ?thesis by (simp add: step_def)
next
  case Timeout
  with same_core_inv [OF same_core_on_timeout inv] show ?thesis by (simp add: step_def)
next
  case (Resume k tk)
  with resume_inv [OF inv] show ?thesis by (simp add: step_def)
qed

lemma run_inv:
  assumes "hook_inv s" and "fresh_run lib s as"
  shows "hook_inv (run lib s as)"
  using assms
proof (induction as arbitrary: s)
  case Nil
  then show ?case by (simp add: run_def)
next
  case (Cons a as)
  from Cons.prems have "hook_inv (step lib a s)" "fresh_run lib (step lib a s) as"
    by (simp_all add: step_inv)
  from Cons.IH [OF this] show ?case by (simp add: run_def)
qed

lemma initial_inv: "hook_inv (initial supported)"
  by (simp add: hook_inv_def initial_def inv4_def full_when_completed_def open_ids_def
      one_holder_def fids_def qids_def iids_def)

lemma exponent_1: "exponent 1 = 0"
  by (simp add: exponent_def pow2_def)

lemma exponent_100: "exponent 100 = 6"
  by (simp add: exponent_def pow2_def)

lemma fl_1: "fl 1 = 1"
  by (simp add: fl_def exponent_1 pow2_def round_even_def Let_def)

lemma fl_100: "fl 100 = 100"
  by (simp add: fl_def exponent_100 pow2_def round_even_def Let_def)

lemma calc_progress_all: "0 < n \<Longrightarrow> calc_progress n n = Pct 100"
  by (simp add: calc_progress_def fl_1 fl_100 math_round_def)

lemmas event_defs =
  createOffer_def createPeerInstance_def on_connect_def handleData_def on_chunk_def on_chat_def
  on_file_cancel_def on_file_complete_def on_file_meta_def truthy_def or_else_def

lemmas fresh_defs =
  fresh_action_def new_ids_def used_ids_def fids_def fid_def qids_def iids_def


text \<open>
  C3, as stated, fails in the direction from \<open>progress = 100\<close> to \<open>completed\<close>: when the
  last chunk of a file has been received, \<open>progress\<close> is 100 and the record is still
  \<open>transferring\<close>, until \<open>file-complete\<close> arrives. The ids of the run are new.
\<close>

theorem progress_iff_completed_counterexample:
  "fresh_run ref_lib (initial True)
      [CreateOffer, PeerConnect 0,
       PeerData 0 0 ''u1'' (Control (FileMeta (Some ''A'') ''a.bin'' 1024 1)),
       PeerData 0 5 ''u2'' (Chunk (replicate 1024 (CHR 0x00)))] \<and>
   map t_progress (transfers (run ref_lib (initial True)
      [CreateOffer, PeerConnect 0,
       PeerData 0 0 ''u1'' (Control (FileMeta (Some ''A'') ''a.bin'' 1024 1)),
       PeerData 0 5 ''u2'' (Chunk (replicate 1024 (CHR 0x00)))])) = [Pct 100] \<and>
   map t_status (transfers (run ref_lib (initial True)
      [CreateOffer, PeerConnect 0,
       PeerData 0 0 ''u1'' (Control (FileMeta (Some ''A'') ''a.bin'' 1024 1)),
       PeerData 0 5 ''u2'' (Chunk (replicate 1024 (CHR 0x00)))])) = [TS_transferring]"
  by (simp add: fresh_defs event_defs hook_defs calc_progress_all)


text \<open>
  C3, amended. From the mount of the hook, after any sequence of commands, peer events,
  timer callbacks and resumptions of send loops, in any order and with any ticks, every
  record of the list whose status is \<open>completed\<close> has \<open>progress = 100\<close>, provided the ids are
  new where they are drawn: the ids \<open>sendFiles\<close> draws with \<open>uid()\<close> and the id of a received
  \<open>file-meta\<close> (\<open>msg.id || uid()\<close>) are distinct and occur in no record, in no entry of the
  queue, in no loop and not in the incoming assembly. The converse is what fails.
\<close>

theorem completed_is_full:
  assumes "fresh_run lib (initial supported) as"
      and "t \<in> set (transfers (run lib (initial supported) as))"
      and "t_status t = TS_completed"
  shows "t_progress t = Pct 100"
proof -
  from run_inv [OF initial_inv assms(1)]
  have "full_when_completed (transfers (run lib (initial supported) as))"
    by (simp add: hook_inv_def inv4_def)
  from full_whenD [OF this assms(2,3)] show ?thesis .
qed

theorem completed_is_full_witness:
  "map t_status (transfers (run ref_lib (initial True)
      [CreateOffer, PeerConnect 0,
       SendFiles [(''S'', 0, \<lparr>f_name = ''s.bin'', f_bytes = replicate 1024 (CHR 0x01)\<rparr>)],
       Resume 0 \<lparr>tk_now = 10, tk_buffered = 0, tk_read_ok = True\<rparr>,
       Resume 0 \<lparr>tk_now = 20, tk_buffered = 0, tk_read_ok = True\<rparr>,
       PeerData 0 30 ''u1'' (Control (FileMeta (Some ''A'') ''a.bin'' 1024 1)),
       PeerData 0 35 ''u2'' (Chunk (replicate 1024 (CHR 0x00))),
       PeerData 0 40 ''u3'' (Control FileComplete)]))
     = [TS_completed, TS_completed] \<and>
   map t_progress (transfers (run ref_lib (initial True)
      [CreateOffer, PeerConnect 0,
       SendFiles [(''S'', 0, \<lparr>f_name = ''s.bin'', f_bytes = replicate 1024 (CHR 0x01)\<rparr>)],
       Resume 0 \<lparr>tk_now = 10, tk_buffered = 0, tk_read_ok = True\<rparr>,
       Resume 0 \<lparr>tk_now = 20, tk_buffered = 0, tk_read_ok = True\<rparr>,
       PeerData 0 30 ''u1'' (Control (FileMeta (Some ''A'') ''a.bin'' 1024 1)),
       PeerData 0 35 ''u2'' (Chunk (replicate 1024 (CHR 0x00))),
       PeerData 0 40 ''u3'' (Control FileComplete)]))
     = [Pct 100, Pct 100]"
proof -
  define as where "as =
      [CreateOffer, PeerConnect 0,
       SendFiles [(''S'', 0, \<lparr>f_name = ''s.bin'', f_bytes = replicate 1024 (CHR 0x01)\<rparr>)],
       Resume 0 \<lparr>tk_now = 10, tk_buffered = 0, tk_read_ok = True\<rparr>,
       Resume 0 \<lparr>tk_now = 20, tk_buffered = 0, tk_read_ok = True\<rparr>,
       PeerData 0 30 ''u1'' (Control (FileMeta (Some ''A'') ''a.bin'' 1024 1)),
       PeerData 0 35 ''u2'' (Chunk (replicate 1024 (CHR 0x00))),
       PeerData 0 40 ''u3'' (Control FileComplete)]"
  define ts where "ts = transfers (run ref_lib (initial True) as)"
  have fr: "fresh_run ref_lib (initial True) as"
    unfolding as_def by (simp add: fresh_defs event_defs hook_defs)
  have st: "map t_status ts = [TS_completed, TS_completed]"
    unfolding ts_def as_def by (simp add: event_defs hook_defs)
  have "\<forall>t\<in>set ts. t_progress t = Pct 100"
  proof
    fix t assume t: "t \<in> set ts"
    then have "t_status t \<in> set (map t_status ts)" by simp
    then have "t_status t = TS_completed" unfolding st by simp
    from completed_is_full [OF fr t [unfolded ts_def] this] show "t_progress t = Pct 100" .
  qed
  then have "map t_progress ts = replicate (length ts) (Pct 100)"
    by (simp add: map_replicate_const [symmetric] cong: map_cong)
  moreover have "length ts = 2" using arg_cong [OF st, of length] by simp
  ultimately have "map t_progress ts = [Pct 100, Pct 100]"
    by (simp add: numeral_2_eq_2)
  with st show ?thesis unfolding ts_def as_def by simp
qed

end
